theory Spec2Isabelle
  imports Main
begin

section \<open>Strings and path names\<close>

text \<open>
  The converter (\<^verbatim>\<open>converter_heic_para_jpeg.py\<close>) works on POSIX path names. A Python
  \<^verbatim>\<open>str\<close> is a \<^typ>\<open>string\<close>; the functions of \<^verbatim>\<open>os.path\<close> the converter calls are
  written after CPython's \<^verbatim>\<open>posixpath\<close> and \<^verbatim>\<open>genericpath\<close>.
\<close>

text \<open>\<^verbatim>\<open>str.lower\<close> on ASCII letters; every other character is kept.\<close>

definition lower_char :: "char \<Rightarrow> char" where
  "lower_char c =
     (case map_of (zip ''ABCDEFGHIJKLMNOPQRSTUVWXYZ'' ''abcdefghijklmnopqrstuvwxyz'') c of
        Some d \<Rightarrow> d
      | None \<Rightarrow> c)"

definition str_lower :: "string \<Rightarrow> string" where
  "str_lower s = map lower_char s"

text \<open>\<^verbatim>\<open>s.rfind(c)\<close>: the index of the last occurrence of \<open>c\<close>, or \<open>-1\<close>.\<close>

fun rfind :: "char \<Rightarrow> string \<Rightarrow> int" where
  "rfind c [] = - 1"
| "rfind c (x # xs) =
     (let r = rfind c xs in if 0 \<le> r then r + 1 else if x = c then 0 else - 1)"

text \<open>\<^verbatim>\<open>s.split(c)\<close>: the pieces between the occurrences of \<open>c\<close>; never the empty list.\<close>

fun str_split :: "char \<Rightarrow> string \<Rightarrow> string list" where
  "str_split c [] = [[]]"
| "str_split c (x # xs) =
     (if x = c then [] # str_split c xs
      else (x # hd (str_split c xs)) # tl (str_split c xs))"

text \<open>\<^verbatim>\<open>sep.join(parts)\<close>.\<close>

fun str_join :: "string \<Rightarrow> string list \<Rightarrow> string" where
  "str_join sep [] = []"
| "str_join sep [p] = p"
| "str_join sep (p # q # ps) = p @ sep @ str_join sep (q # ps)"

definition os_path_isabs :: "string \<Rightarrow> bool" where
  "os_path_isabs p = (case p of [] \<Rightarrow> False | c # _ \<Rightarrow> c = CHR ''/'')"

text \<open>\<^verbatim>\<open>os.path.join(a, b)\<close> with two arguments.\<close>

definition os_path_join :: "string \<Rightarrow> string \<Rightarrow> string" where
  "os_path_join a b =
     (if os_path_isabs b then b
      else if a = [] \<or> last a = CHR ''/'' then a @ b
      else a @ ''/'' @ b)"

definition rstrip_sep :: "string \<Rightarrow> string" where
  "rstrip_sep s = rev (dropWhile (\<lambda>c. c = CHR ''/'') (rev s))"

text \<open>
  \<^verbatim>\<open>os.path.dirname(p)\<close>: everything up to the last slash, with the trailing slashes
  removed unless the head consists of slashes only.
\<close>

definition os_path_dirname :: "string \<Rightarrow> string" where
  "os_path_dirname p =
     (let i = nat (rfind CHR ''/'' p + 1);
          head = take i p
      in if head \<noteq> [] \<and> head \<noteq> replicate (length head) CHR ''/'' then rstrip_sep head
         else head)"

text \<open>
  \<^verbatim>\<open>os.path.splitext(p)\<close>. The loop of \<^verbatim>\<open>genericpath._splitext\<close> skips the leading dots
  of the last component: it answers whether some character from \<open>filenameIndex\<close> up to
  \<open>dotIndex\<close> is not a dot.
\<close>

function splitext_loop :: "string \<Rightarrow> nat \<Rightarrow> nat \<Rightarrow> bool" where
  "splitext_loop p filenameIndex dotIndex =
     (if filenameIndex < dotIndex then
        (if p ! filenameIndex \<noteq> CHR ''.'' then True
         else splitext_loop p (filenameIndex + 1) dotIndex)
      else False)"
  by pat_completeness auto
termination
  by (relation "measure (\<lambda>(p, i, d). d - i)") auto

declare splitext_loop.simps [simp del]

definition os_path_splitext :: "string \<Rightarrow> string \<times> string" where
  "os_path_splitext p =
     (let sepIndex = rfind CHR ''/'' p;
          dotIndex = rfind CHR ''.'' p
      in if sepIndex < dotIndex \<and> splitext_loop p (nat (sepIndex + 1)) (nat dotIndex)
         then (take (nat dotIndex) p, drop (nat dotIndex) p)
         else (p, []))"

text \<open>
  \<^verbatim>\<open>os.path.normpath(path)\<close>: one step of its loop over the components, and the whole.
  \<open>initial_slashes\<close> is 0, 1 or 2 (POSIX keeps exactly two leading slashes).
\<close>

definition normpath_step :: "nat \<Rightarrow> string list \<Rightarrow> string \<Rightarrow> string list" where
  "normpath_step initial_slashes new_comps c =
     (if c = [] \<or> c = ''.'' then new_comps
      else if c \<noteq> ''..'' \<or> (initial_slashes = 0 \<and> new_comps = [])
              \<or> (new_comps \<noteq> [] \<and> last new_comps = ''..'')
      then new_comps @ [c]
      else if new_comps \<noteq> [] then butlast new_comps
      else new_comps)"

definition initial_slashes_of :: "string \<Rightarrow> nat" where
  "initial_slashes_of path =
     (if os_path_isabs path then
        (if take 2 path = ''//'' \<and> take 3 path \<noteq> ''///'' then 2 else 1)
      else 0)"

definition os_path_normpath :: "string \<Rightarrow> string" where
  "os_path_normpath path =
     (if path = [] then ''.''
      else
        let initial_slashes = initial_slashes_of path;
            comps = foldl (normpath_step initial_slashes) [] (str_split CHR ''/'' path);
            path' = replicate initial_slashes CHR ''/'' @ str_join ''/'' comps
        in if path' = [] then ''.'' else path')"

text \<open>
  \<^verbatim>\<open>os.path.abspath(path)\<close>, given the working directory \<^verbatim>\<open>os.getcwd()\<close> as a string.
\<close>

definition abspath_in :: "string \<Rightarrow> string \<Rightarrow> string" where
  "abspath_in getcwd path =
     os_path_normpath (if os_path_isabs path then path else os_path_join getcwd path)"

text \<open>
  \<^verbatim>\<open>os.path.commonprefix\<close> of two component lists. CPython compares the minimum and the
  maximum of the sequences it is given; of two lists that is their longest common prefix.
\<close>

fun commonprefix :: "string list \<Rightarrow> string list \<Rightarrow> string list" where
  "commonprefix (x # xs) (y # ys) = (if x = y then x # commonprefix xs ys else [])"
| "commonprefix _ _ = []"

section \<open>Exceptions, images and the file system\<close>

text \<open>
  Every \<^verbatim>\<open>raise\<close> is a value: the exception classes the converter raises itself or
  receives from the operating system and the imaging library. The argument is the path
  or the message the exception carries.
\<close>

datatype exn =
    FileNotFoundError string
  | FileExistsError string
  | NotADirectoryError string
  | IsADirectoryError string
  | ValueError string
  | ImageError string

type_synonym bytes = string

text \<open>A value of a keyword parameter handed to \<^verbatim>\<open>Image.save\<close>.\<close>

datatype pval = PStr string | PInt int | PBool bool | PBytes bytes

type_synonym params = "(string \<times> pval) list"

text \<open>
  A decoded image, as far as the converter looks at it: the colour mode, the pixel buffer
  (never inspected here) and the \<^verbatim>\<open>info\<close> dictionary with the entries \<^verbatim>\<open>"exif"\<close> and
  \<^verbatim>\<open>"icc_profile"\<close>.
\<close>

record image =
  mode :: string
  pixels :: "nat list"
  info :: "(string \<times> bytes) list"

text \<open>
  What a regular file holds: bytes that came from elsewhere, or the file \<^verbatim>\<open>Image.save\<close>
  wrote, kept as the image and the keyword parameters the encoder was given.
\<close>

datatype content = Raw bytes | Encoded image params

text \<open>
  The file system is a tree; a directory lists its entries in the order the operating
  system iterates them. There are no symbolic links and no permissions.
\<close>

datatype node = File content | Dir "(string \<times> node) list"

text \<open>The messages the converter prints, with the values they show.\<close>

datatype msg =
    Aviso_qualidade
  | Nenhum_ficheiro string
  | A_converter nat string string
  | Opcoes string int int bool bool bool bool bool int
  | Erro exn
  | Conversao_concluida
  | Convertidos int
  | Com_erro int

text \<open>
  What the process does to its environment, in order: printing, creating directories,
  enumerating a directory (\<^verbatim>\<open>os.listdir\<close>, \<^verbatim>\<open>os.walk\<close>), opening an image file and
  saving one.
\<close>

datatype event =
    Print msg
  | Makedirs string
  | Listdir string
  | Walk string
  | Open string
  | Save string

record world =
  fs :: node
  cwd :: "string list"
  cpu_count :: "nat option"
  trace :: "event list"

definition emit :: "event \<Rightarrow> world \<Rightarrow> world" where
  "emit e w = w\<lparr>trace := trace w @ [e]\<rparr>"

subsection \<open>Looking paths up\<close>

fun lookup :: "node \<Rightarrow> string list \<Rightarrow> node option" where
  "lookup n [] = Some n"
| "lookup (File _) (c # cs) = None"
| "lookup (Dir es) (c # cs) = (case map_of es c of None \<Rightarrow> None | Some n \<Rightarrow> lookup n cs)"

definition is_dir :: "node option \<Rightarrow> bool" where
  "is_dir n = (case n of Some (Dir _) \<Rightarrow> True | _ \<Rightarrow> False)"

text \<open>
  Path resolution as the kernel does it, from the directory \<open>cur\<close>: every component is
  looked up in a directory that exists; the empty component and \<^verbatim>\<open>.\<close> stay, \<^verbatim>\<open>..\<close> goes
  up. The result names the entry, which itself may be missing.
\<close>

fun namei_from :: "node \<Rightarrow> string list \<Rightarrow> string list \<Rightarrow> string list option" where
  "namei_from root cur [] = Some cur"
| "namei_from root cur (c # cs) =
     (if \<not> is_dir (lookup root cur) then None
      else if c = [] \<or> c = ''.'' then namei_from root cur cs
      else if c = ''..'' then namei_from root (butlast cur) cs
      else namei_from root (cur @ [c]) cs)"

definition start_dir :: "world \<Rightarrow> string \<Rightarrow> string list" where
  "start_dir w p = (if os_path_isabs p then [] else cwd w)"

definition namei :: "world \<Rightarrow> string \<Rightarrow> string list option" where
  "namei w p =
     (if p = [] then None else namei_from (fs w) (start_dir w p) (str_split CHR ''/'' p))"

definition stat :: "world \<Rightarrow> string \<Rightarrow> node option" where
  "stat w p = (case namei w p of None \<Rightarrow> None | Some cs \<Rightarrow> lookup (fs w) cs)"

definition os_path_isdir :: "world \<Rightarrow> string \<Rightarrow> bool" where
  "os_path_isdir w p = is_dir (stat w p)"

definition os_path_exists :: "world \<Rightarrow> string \<Rightarrow> bool" where
  "os_path_exists w p = (stat w p \<noteq> None)"

definition os_getcwd :: "world \<Rightarrow> string" where
  "os_getcwd w = CHR ''/'' # str_join ''/'' (cwd w)"

definition os_path_abspath :: "world \<Rightarrow> string \<Rightarrow> string" where
  "os_path_abspath w path = abspath_in (os_getcwd w) path"

text \<open>
  \<^verbatim>\<open>os.path.relpath(path, start)\<close>: the components of \<open>path\<close> after the prefix it shares
  with \<open>start\<close>, behind one \<^verbatim>\<open>..\<close> for each further component of \<open>start\<close>.
\<close>

definition os_path_relpath :: "world \<Rightarrow> string \<Rightarrow> string \<Rightarrow> exn + string" where
  "os_path_relpath w path start =
     (if path = [] then Inl (ValueError ''no path specified'')
      else
        let start_list = filter (\<lambda>x. x \<noteq> []) (str_split CHR ''/'' (os_path_abspath w start));
            path_list = filter (\<lambda>x. x \<noteq> []) (str_split CHR ''/'' (os_path_abspath w path));
            i = length (commonprefix start_list path_list);
            rel_list = replicate (length start_list - i) ''..'' @ drop i path_list
        in if rel_list = [] then Inr ''.''
           else Inr (foldl os_path_join (hd rel_list) (tl rel_list)))"

subsection \<open>Changing the tree\<close>

text \<open>
  \<open>put n path new\<close> stores \<open>new\<close> at \<open>path\<close> below \<open>n\<close>: it replaces the entry of that name
  or appends a new one to its directory. Its callers have checked that the parent is a
  directory; on any other path the tree is unchanged.
\<close>

fun put :: "node \<Rightarrow> string list \<Rightarrow> node \<Rightarrow> node"
and put_entry :: "(string \<times> node) list \<Rightarrow> string \<Rightarrow> string list \<Rightarrow> node \<Rightarrow> (string \<times> node) list"
where
  "put n [] new = new"
| "put (File c) (x # xs) new = File c"
| "put (Dir es) (x # xs) new = Dir (put_entry es x xs new)"
| "put_entry [] x xs new = (if xs = [] then [(x, new)] else [])"
| "put_entry ((k, v) # es) x xs new =
     (if k = x then (k, put v xs new) # es else (k, v) # put_entry es x xs new)"

text \<open>
  \<^verbatim>\<open>os.makedirs(name, exist_ok=True)\<close>, component by component: a directory that exists
  is entered, a missing one is created, a regular file in the way is an error
  (\<^verbatim>\<open>FileExistsError\<close> for the leaf, \<^verbatim>\<open>NotADirectoryError\<close> before it).
\<close>

fun makedirs_from :: "string \<Rightarrow> node \<Rightarrow> string list \<Rightarrow> string list \<Rightarrow> exn + node" where
  "makedirs_from name root cur [] = Inr root"
| "makedirs_from name root cur (c # cs) =
     (if c = [] \<or> c = ''.'' then makedirs_from name root cur cs
      else if c = ''..'' then makedirs_from name root (butlast cur) cs
      else
        (case lookup root (cur @ [c]) of
           Some (Dir _) \<Rightarrow> makedirs_from name root (cur @ [c]) cs
         | Some (File _) \<Rightarrow>
             Inl (if cs = [] then FileExistsError name else NotADirectoryError name)
         | None \<Rightarrow> makedirs_from name (put root (cur @ [c]) (Dir [])) (cur @ [c]) cs))"

definition os_makedirs :: "world \<Rightarrow> string \<Rightarrow> (exn + unit) \<times> world" where
  "os_makedirs w name =
     (let w1 = emit (Makedirs name) w
      in if name = [] \<or> \<not> is_dir (lookup (fs w) (start_dir w name))
         then (Inl (FileNotFoundError name), w1)
         else
           (case makedirs_from name (fs w) (start_dir w name) (str_split CHR ''/'' name) of
              Inl e \<Rightarrow> (Inl e, w1)
            | Inr root \<Rightarrow> (Inr (), w1\<lparr>fs := root\<rparr>)))"

text \<open>Opening a file for reading, and creating or replacing a regular file.\<close>

definition read_file :: "world \<Rightarrow> string \<Rightarrow> exn + content" where
  "read_file w p =
     (case stat w p of
        None \<Rightarrow> Inl (FileNotFoundError p)
      | Some (Dir _) \<Rightarrow> Inl (IsADirectoryError p)
      | Some (File c) \<Rightarrow> Inr c)"

definition write_file :: "world \<Rightarrow> string \<Rightarrow> content \<Rightarrow> exn + world" where
  "write_file w p c =
     (case namei w p of
        None \<Rightarrow> Inl (FileNotFoundError p)
      | Some cs \<Rightarrow>
          (case lookup (fs w) cs of
             Some (Dir _) \<Rightarrow> Inl (IsADirectoryError p)
           | _ \<Rightarrow> Inr (w\<lparr>fs := put (fs w) cs (File c)\<rparr>)))"

subsection \<open>Enumerating directories\<close>

definition os_listdir :: "world \<Rightarrow> string \<Rightarrow> (exn + string list) \<times> world" where
  "os_listdir w p =
     (let w1 = emit (Listdir p) w
      in case stat w p of
           None \<Rightarrow> (Inl (FileNotFoundError p), w1)
         | Some (File _) \<Rightarrow> (Inl (NotADirectoryError p), w1)
         | Some (Dir es) \<Rightarrow> (Inr (map fst es), w1))"

definition dirnames :: "(string \<times> node) list \<Rightarrow> string list" where
  "dirnames es = map fst (filter (\<lambda>(n, v). is_dir (Some v)) es)"

definition filenames :: "(string \<times> node) list \<Rightarrow> string list" where
  "filenames es = map fst (filter (\<lambda>(n, v). \<not> is_dir (Some v)) es)"

text \<open>
  \<^verbatim>\<open>os.walk(top)\<close>, top down: for each directory the triple of its path, the names of its
  subdirectories and the names of its other entries, then the same for each subdirectory
  under the joined path. A top that is no directory yields nothing (errors of the scan
  are ignored by default).
\<close>

fun walk_node :: "string \<Rightarrow> node \<Rightarrow> (string \<times> string list \<times> string list) list"
and walk_entries :: "string \<Rightarrow> (string \<times> node) list \<Rightarrow> (string \<times> string list \<times> string list) list"
where
  "walk_node t (File c) = []"
| "walk_node t (Dir es) = (t, dirnames es, filenames es) # walk_entries t es"
| "walk_entries t [] = []"
| "walk_entries t ((n, v) # es) = walk_node (os_path_join t n) v @ walk_entries t es"

definition os_walk :: "world \<Rightarrow> string \<Rightarrow> (string \<times> string list \<times> string list) list \<times> world" where
  "os_walk w t =
     (let w1 = emit (Walk t) w
      in case stat w t of
           Some (Dir es) \<Rightarrow> (walk_node t (Dir es), w1)
         | _ \<Rightarrow> ([], w1))"

section \<open>The imaging library\<close>

text \<open>
  Decoding, orientation, colour conversion and encoding belong to Pillow and its HEIF
  plugin. What they compute is a parameter of the model: \<open>decode\<close> reads the content of a
  file (\<^verbatim>\<open>Image.open\<close> and the load it triggers), \<open>exif_transpose\<close> is
  \<^verbatim>\<open>ImageOps.exif_transpose\<close>, \<open>convert_pixels\<close> maps a pixel buffer from one mode to
  another, and \<open>encode_error\<close> says when the encoder refuses an image with the given
  parameters.
\<close>

record pillow =
  decode :: "content \<Rightarrow> exn + image"
  exif_transpose :: "image \<Rightarrow> exn + image"
  convert_pixels :: "string \<Rightarrow> string \<Rightarrow> nat list \<Rightarrow> nat list"
  encode_error :: "image \<Rightarrow> params \<Rightarrow> exn option"

text \<open>\<^verbatim>\<open>Image.open(path)\<close>.\<close>

definition image_open :: "pillow \<Rightarrow> world \<Rightarrow> string \<Rightarrow> (exn + image) \<times> world" where
  "image_open lib w path =
     (let w1 = emit (Open path) w
      in case read_file w path of
           Inl e \<Rightarrow> (Inl e, w1)
         | Inr c \<Rightarrow> (decode lib c, w1))"

text \<open>\<^verbatim>\<open>im.convert(m)\<close>: an image of mode \<open>m\<close>.\<close>

definition convert :: "pillow \<Rightarrow> image \<Rightarrow> string \<Rightarrow> image" where
  "convert lib im m = im\<lparr>mode := m, pixels := convert_pixels lib (mode im) m (pixels im)\<rparr>"

text \<open>
  \<^verbatim>\<open>im.save(path, **params)\<close>: the encoder runs on the image and the parameters, and the
  file at \<open>path\<close> is created or replaced. A refused encoding leaves the tree as it was.
\<close>

definition image_save :: "pillow \<Rightarrow> image \<Rightarrow> string \<Rightarrow> params \<Rightarrow> world \<Rightarrow> (exn + unit) \<times> world" where
  "image_save lib im path ps w =
     (let w1 = emit (Save path) w
      in case encode_error lib im ps of
           Some e \<Rightarrow> (Inl e, w1)
         | None \<Rightarrow>
             (case write_file w1 path (Encoded im ps) of
                Inl e \<Rightarrow> (Inl e, w1)
              | Inr w2 \<Rightarrow> (Inr (), w2)))"

text \<open>
  \<^verbatim>\<open>if blob: params[key] = blob\<close>: a blob that is absent or empty adds no parameter.
\<close>

definition with_param :: "string \<Rightarrow> bytes option \<Rightarrow> params" where
  "with_param key b = (case b of None \<Rightarrow> [] | Some x \<Rightarrow> if x \<noteq> [] then [(key, PBytes x)] else [])"

section \<open>The single-file converter\<close>

text \<open>The arguments of \<^verbatim>\<open>_salvar_imagem\<close>, as \<^verbatim>\<open>executor.submit\<close> receives them.\<close>

record task =
  caminho_entrada :: string
  caminho_saida :: string
  t_formato :: string
  t_qualidade :: int
  t_subsampling :: int
  t_progressivo :: bool
  t_otimizar :: bool
  t_manter_metadata :: bool

definition jpeg_params :: "task \<Rightarrow> bytes option \<Rightarrow> bytes option \<Rightarrow> params" where
  "jpeg_params t exif icc =
     [(''format'', PStr ''JPEG''),
      (''quality'', PInt (t_qualidade t)),
      (''subsampling'', PInt (t_subsampling t)),
      (''optimize'', PBool (t_otimizar t)),
      (''progressive'', PBool (t_progressivo t))]
     @ with_param ''exif'' exif @ with_param ''icc_profile'' icc"

definition png_params :: "bytes option \<Rightarrow> params" where
  "png_params icc = [(''format'', PStr ''PNG'')] @ with_param ''icc_profile'' icc"

definition salvar_imagem :: "pillow \<Rightarrow> task \<Rightarrow> world \<Rightarrow> (exn + unit) \<times> world" where
  "salvar_imagem lib t w =
     (case image_open lib w (caminho_entrada t) of
        (Inl e, w1) \<Rightarrow> (Inl e, w1)
      | (Inr im0, w1) \<Rightarrow>
          (case exif_transpose lib im0 of
             Inl e \<Rightarrow> (Inl e, w1)
           | Inr im \<Rightarrow>
               let exif = (if t_manter_metadata t then map_of (info im) ''exif'' else None);
                   icc = (if t_manter_metadata t then map_of (info im) ''icc_profile'' else None)
               in if t_formato t = ''jpeg'' then
                    image_save lib (convert lib im ''RGB'') (caminho_saida t)
                      (jpeg_params t exif icc) w1
                  else if t_formato t = ''png'' then
                    image_save lib im (caminho_saida t) (png_params icc) w1
                  else (Inl (ValueError (''Formato nao suportado: '' @ t_formato t)), w1)))"

section \<open>The worker pool\<close>

text \<open>
  \<^verbatim>\<open>executor.submit\<close> returns a future; its task runs on a worker thread at a moment the
  main thread does not choose. A future is pending or finished with the outcome of its
  call; \<open>completed\<close> lists the futures, by their number in \<open>tarefas\<close> and with their
  outcome, in the order they finished.
\<close>

datatype future = Pending task | Finished "exn + unit"

record pool =
  tarefas :: "future list"
  completed :: "(nat \<times> (exn + unit)) list"
  pworld :: world

text \<open>A worker runs the pending task number \<open>i\<close> to its end.\<close>

definition run_task :: "pillow \<Rightarrow> pool \<Rightarrow> nat \<Rightarrow> pool" where
  "run_task lib st i =
     (if i < length (tarefas st) then
        (case tarefas st ! i of
           Pending t \<Rightarrow>
             (case salvar_imagem lib t (pworld st) of
                (r, w1) \<Rightarrow>
                  st\<lparr>tarefas := (tarefas st)[i := Finished r],
                     completed := completed st @ [(i, r)],
                     pworld := w1\<rparr>)
         | Finished r \<Rightarrow> st)
      else st)"

text \<open>
  The interleaving is a schedule: at each point where the main thread is about to act,
  the next entry of the schedule names the tasks that finish before it does.
\<close>

type_synonym schedule = "nat list list"

definition run_sched :: "pillow \<Rightarrow> schedule \<Rightarrow> pool \<Rightarrow> pool" where
  "run_sched lib sch st = foldl (run_task lib) st (case sch of [] \<Rightarrow> [] | is # _ \<Rightarrow> is)"

text \<open>
  Leaving the \<^verbatim>\<open>with\<close> block, and \<^verbatim>\<open>as_completed\<close>, wait for every future: the tasks the
  schedule names first, then whatever is still pending.
\<close>

definition drain :: "pillow \<Rightarrow> schedule \<Rightarrow> pool \<Rightarrow> pool" where
  "drain lib sch st =
     foldl (run_task lib) (run_sched lib sch st) [0 ..< length (tarefas st)]"

section \<open>The enumerator\<close>

definition exts :: "string list" where
  "exts = [''.heic'', ''.heif'']"

definition tem_ext_heic :: "string \<Rightarrow> bool" where
  "tem_ext_heic f = (str_lower (snd (os_path_splitext f)) \<in> set exts)"

text \<open>
  The inner loop of the recursive branch of \<^verbatim>\<open>_listar_ficheiros_heic\<close>, over the
  \<open>ficheiros\<close> of one directory \<open>raiz\<close>, and the outer loop over the triples of
  \<^verbatim>\<open>os.walk\<close>. The generator is consumed by \<^verbatim>\<open>list(...)\<close>, so an exception on any item
  is the outcome of the whole.
\<close>

fun listar_raiz :: "world \<Rightarrow> string \<Rightarrow> string \<Rightarrow> string list \<Rightarrow> exn + (string \<times> string) list" where
  "listar_raiz w pasta_origem_abs raiz [] = Inr []"
| "listar_raiz w pasta_origem_abs raiz (f # ficheiros) =
     (if tem_ext_heic f then
        (let caminho_abs = os_path_join raiz f
         in case os_path_relpath w caminho_abs pasta_origem_abs of
              Inl e \<Rightarrow> Inl e
            | Inr caminho_rel \<Rightarrow>
                (case listar_raiz w pasta_origem_abs raiz ficheiros of
                   Inl e \<Rightarrow> Inl e
                 | Inr rest \<Rightarrow> Inr ((caminho_abs, caminho_rel) # rest)))
      else listar_raiz w pasta_origem_abs raiz ficheiros)"

fun listar_walk ::
  "world \<Rightarrow> string \<Rightarrow> (string \<times> string list \<times> string list) list \<Rightarrow> exn + (string \<times> string) list"
where
  "listar_walk w pasta_origem_abs [] = Inr []"
| "listar_walk w pasta_origem_abs ((raiz, _, ficheiros) # triples) =
     (case listar_raiz w pasta_origem_abs raiz ficheiros of
        Inl e \<Rightarrow> Inl e
      | Inr here \<Rightarrow>
          (case listar_walk w pasta_origem_abs triples of
             Inl e \<Rightarrow> Inl e
           | Inr rest \<Rightarrow> Inr (here @ rest)))"

definition listar_ficheiros_heic ::
  "world \<Rightarrow> string \<Rightarrow> bool \<Rightarrow> (exn + (string \<times> string) list) \<times> world"
where
  "listar_ficheiros_heic w pasta_origem recursivo =
     (let pasta_origem_abs = os_path_abspath w pasta_origem
      in if recursivo then
           (case os_walk w pasta_origem_abs of
              (triples, w1) \<Rightarrow> (listar_walk w pasta_origem_abs triples, w1))
         else
           (case os_listdir w pasta_origem_abs of
              (Inl e, w1) \<Rightarrow> (Inl e, w1)
            | (Inr names, w1) \<Rightarrow>
                (Inr (map (\<lambda>f. (os_path_join pasta_origem_abs f, f)) (filter tem_ext_heic names)),
                 w1)))"

section \<open>The batch orchestrator\<close>

text \<open>The keyword arguments of \<^verbatim>\<open>converter_heic\<close> and their defaults.\<close>

record options =
  qualidade :: int
  subsampling :: int
  progressivo :: bool
  otimizar :: bool
  manter_metadata :: bool
  recursivo :: bool
  overwrite :: bool
  formato :: string
  threads :: "int option"

definition default_options :: options where
  "default_options =
     \<lparr>qualidade = 95, subsampling = 0, progressivo = True, otimizar = True,
      manter_metadata = True, recursivo = True, overwrite = False, formato = ''jpeg'',
      threads = Some 0\<rparr>"

text \<open>The local function \<^verbatim>\<open>destino_para\<close>, with the variables it closes over.\<close>

definition ext_out :: "string \<Rightarrow> string" where
  "ext_out fmt = (if fmt = ''jpeg'' then ''.jpg'' else ''.png'')"

definition destino_para :: "string \<Rightarrow> string \<Rightarrow> string \<Rightarrow> world \<Rightarrow> (exn + string) \<times> world" where
  "destino_para pasta_destino_abs fmt rel_path w =
     (let nome_base = fst (os_path_splitext rel_path);
          caminho_out = os_path_join pasta_destino_abs (nome_base @ ext_out fmt)
      in case os_makedirs w (os_path_dirname caminho_out) of
           (Inl e, w1) \<Rightarrow> (Inl e, w1)
         | (Inr _, w1) \<Rightarrow> (Inr caminho_out, w1))"

definition make_task :: "options \<Rightarrow> string \<Rightarrow> string \<Rightarrow> task" where
  "make_task opts caminho_abs saida =
     \<lparr>caminho_entrada = caminho_abs, caminho_saida = saida, t_formato = formato opts,
      t_qualidade = qualidade opts, t_subsampling = subsampling opts,
      t_progressivo = progressivo opts, t_otimizar = otimizar opts,
      t_manter_metadata = manter_metadata opts\<rparr>"

text \<open>
  The submission loop over \<open>ficheiros\<close>. Before each iteration the workers may finish the
  tasks the schedule names. An exception of \<^verbatim>\<open>destino_para\<close> ends the loop.
\<close>

fun submit_loop ::
  "pillow \<Rightarrow> options \<Rightarrow> string \<Rightarrow> (string \<times> string) list \<Rightarrow> schedule \<Rightarrow> pool
     \<Rightarrow> (exn + unit) \<times> schedule \<times> pool"
where
  "submit_loop lib opts dest [] sch st = (Inr (), sch, st)"
| "submit_loop lib opts dest ((caminho_abs, caminho_rel) # ficheiros) sch st =
     (let st1 = run_sched lib sch st
      in case destino_para dest (formato opts) caminho_rel (pworld st1) of
           (Inl e, w1) \<Rightarrow> (Inl e, tl sch, st1\<lparr>pworld := w1\<rparr>)
         | (Inr saida, w1) \<Rightarrow>
             if \<not> overwrite opts \<and> os_path_exists w1 saida
             then submit_loop lib opts dest ficheiros (tl sch) (st1\<lparr>pworld := w1\<rparr>)
             else submit_loop lib opts dest ficheiros (tl sch)
                    (st1\<lparr>tarefas := tarefas st1 @ [Pending (make_task opts caminho_abs saida)],
                        pworld := w1\<rparr>))"

text \<open>
  The loop over \<^verbatim>\<open>as_completed(tarefas)\<close>: \<^verbatim>\<open>fut.result()\<close> returns or raises what the
  task did.
\<close>

fun tally :: "(exn + unit) list \<Rightarrow> int \<times> int \<times> world \<Rightarrow> int \<times> int \<times> world" where
  "tally [] acc = acc"
| "tally (r # rs) (convertidos, erros, w) =
     (case r of
        Inr _ \<Rightarrow> tally rs (convertidos + 1, erros, w)
      | Inl e \<Rightarrow> tally rs (convertidos, erros + 1, emit (Print (Erro e)) w))"

definition resolve_threads :: "world \<Rightarrow> int option \<Rightarrow> int" where
  "resolve_threads w t =
     (let auto = max 1 (min 32 (case cpu_count w of None \<Rightarrow> 2 | Some n \<Rightarrow> if n = 0 then 2 else int n))
      in case t of None \<Rightarrow> auto | Some n \<Rightarrow> if n \<le> 0 then auto else n)"

definition fresh_pool :: "world \<Rightarrow> pool" where
  "fresh_pool w = \<lparr>tarefas = [], completed = [], pworld = w\<rparr>"

text \<open>
  The \<^verbatim>\<open>with ThreadPoolExecutor(...)\<close> block: the submission loop, then the loop over
  \<^verbatim>\<open>as_completed\<close>. The block is left, by its end or by an exception, only when every
  submitted task has run. The messages of the second loop are placed after the events of
  the tasks.
\<close>

definition pool_block ::
  "pillow \<Rightarrow> options \<Rightarrow> string \<Rightarrow> (string \<times> string) list \<Rightarrow> schedule \<Rightarrow> pool
     \<Rightarrow> (exn + int \<times> int) \<times> pool"
where
  "pool_block lib opts dest ficheiros sch st =
     (case submit_loop lib opts dest ficheiros sch st of
        (Inl e, sch1, st1) \<Rightarrow> (Inl e, drain lib sch1 st1)
      | (Inr _, sch1, st1) \<Rightarrow>
          let st2 = drain lib sch1 st1
          in case tally (map snd (completed st2)) (0, 0, pworld st2) of
               (convertidos, erros, w) \<Rightarrow> (Inr (convertidos, erros), st2\<lparr>pworld := w\<rparr>))"

text \<open>
  The body of \<^verbatim>\<open>converter_heic\<close> from the count of the enumerated files to its
  \<^verbatim>\<open>return\<close>: nothing to do for an empty list, otherwise the two messages, the pool and
  the summary.
\<close>

definition converter_lista ::
  "pillow \<Rightarrow> schedule \<Rightarrow> string \<Rightarrow> string \<Rightarrow> options \<Rightarrow> string \<Rightarrow> (string \<times> string) list
     \<Rightarrow> world \<Rightarrow> (exn + int \<times> int) \<times> world"
where
  "converter_lista lib sch pasta_origem pasta_destino opts pasta_destino_abs ficheiros w3 =
     (if length ficheiros = 0
      then (Inr (0, 0), emit (Print (Nenhum_ficheiro pasta_origem)) w3)
      else
        let nthreads = resolve_threads w3 (threads opts);
            w4 = emit (Print (A_converter (length ficheiros) pasta_origem pasta_destino)) w3;
            w5 = emit (Print (Opcoes (formato opts) (qualidade opts) (subsampling opts)
                   (progressivo opts) (otimizar opts) (manter_metadata opts) (recursivo opts)
                   (overwrite opts) nthreads)) w4
        in case pool_block lib opts pasta_destino_abs ficheiros sch (fresh_pool w5) of
             (Inl e, st) \<Rightarrow> (Inl e, pworld st)
           | (Inr (convertidos, erros), st) \<Rightarrow>
               (Inr (convertidos, erros),
                emit (Print (Com_erro erros))
                  (emit (Print (Convertidos convertidos))
                     (emit (Print Conversao_concluida) (pworld st)))))"

text \<open>The warning about a JPEG quality above 95.\<close>

definition aviso_qualidade :: "options \<Rightarrow> world \<Rightarrow> world" where
  "aviso_qualidade opts w =
     (if qualidade opts > 95 \<and> formato opts = ''jpeg'' then emit (Print Aviso_qualidade) w
      else w)"

definition converter_heic ::
  "pillow \<Rightarrow> schedule \<Rightarrow> string \<Rightarrow> string \<Rightarrow> options \<Rightarrow> world \<Rightarrow> (exn + int \<times> int) \<times> world"
where
  "converter_heic lib sch pasta_origem pasta_destino opts0 w0 =
     (if \<not> os_path_isdir w0 pasta_origem then (Inl (FileNotFoundError pasta_origem), w0)
      else
        let opts = opts0\<lparr>formato := str_lower (formato opts0)\<rparr>
        in if formato opts \<notin> {''jpeg'', ''png''}
           then (Inl (ValueError ''formato deve ser jpeg ou png''), w0)
           else
             let w1 = aviso_qualidade opts w0;
                 pasta_origem_abs = os_path_abspath w1 pasta_origem;
                 pasta_destino_abs = os_path_abspath w1 pasta_destino
             in case os_makedirs w1 pasta_destino_abs of
                  (Inl e, w2) \<Rightarrow> (Inl e, w2)
                | (Inr _, w2) \<Rightarrow>
                    (case listar_ficheiros_heic w2 pasta_origem_abs (recursivo opts) of
                       (Inl e, w3) \<Rightarrow> (Inl e, w3)
                     | (Inr ficheiros, w3) \<Rightarrow>
                         converter_lista lib sch pasta_origem pasta_destino opts
                           pasta_destino_abs ficheiros w3))"

section \<open>Notions the statements use\<close>

text \<open>
  One tree extends another when every path that names a directory still names one and
  every path that names something still does. A world evolves into another when its tree
  is extended, its trace is continued and nothing else has changed.
\<close>

definition extends :: "node \<Rightarrow> node \<Rightarrow> bool" where
  "extends a b =
     (\<forall>p. (is_dir (lookup a p) \<longrightarrow> is_dir (lookup b p))
        \<and> (lookup a p \<noteq> None \<longrightarrow> lookup b p \<noteq> None))"

definition evolves :: "world \<Rightarrow> world \<Rightarrow> bool" where
  "evolves w w' =
     (extends (fs w) (fs w') \<and> cwd w' = cwd w \<and> cpu_count w' = cpu_count w
      \<and> (\<exists>es. trace w' = trace w @ es))"

text \<open>
  A future is finished or not, an outcome is a success or not. A pool is consistent when
  \<open>completed\<close> lists exactly the finished futures, each once and with its outcome.
\<close>

definition is_finished :: "future \<Rightarrow> bool" where
  "is_finished f = (case f of Finished _ \<Rightarrow> True | Pending _ \<Rightarrow> False)"

definition is_success :: "exn + unit \<Rightarrow> bool" where
  "is_success r = (case r of Inr _ \<Rightarrow> True | Inl _ \<Rightarrow> False)"

definition pool_inv :: "pool \<Rightarrow> bool" where
  "pool_inv st =
     (distinct (map fst (completed st))
      \<and> (\<forall>i r. (i, r) \<in> set (completed st)
             \<longleftrightarrow> i < length (tarefas st) \<and> tarefas st ! i = Finished r))"

text \<open>
  A name of a directory entry is not empty, holds no slash and is neither \<^verbatim>\<open>.\<close> nor
  \<^verbatim>\<open>..\<close>; a tree is well formed when all its names are. The components of a path are
  what \<^verbatim>\<open>os.path.relpath\<close> compares: the non-empty pieces of the absolute path. For an
  absolute path they are what the loop of \<^verbatim>\<open>normpath\<close> collects.
\<close>

definition valid_name :: "string \<Rightarrow> bool" where
  "valid_name n = (n \<noteq> [] \<and> CHR ''/'' \<notin> set n \<and> n \<noteq> ''.'' \<and> n \<noteq> ''..'')"

fun wf_node :: "node \<Rightarrow> bool"
and wf_entries :: "(string \<times> node) list \<Rightarrow> bool"
where
  "wf_node (File c) = True"
| "wf_node (Dir es) = wf_entries es"
| "wf_entries [] = True"
| "wf_entries ((n, v) # es) = (valid_name n \<and> wf_node v \<and> wf_entries es)"

definition norm_components :: "string \<Rightarrow> string list" where
  "norm_components q = foldl (normpath_step 1) [] (str_split CHR ''/'' q)"

definition components :: "world \<Rightarrow> string \<Rightarrow> string list" where
  "components w p = filter (\<lambda>x. x \<noteq> []) (str_split CHR ''/'' (os_path_abspath w p))"

section \<open>Example worlds\<close>

text \<open>
  A library that decodes every file but the one holding \<^verbatim>\<open>bad\<close>, into an RGBA image with
  both metadata blobs, and an encoder that accepts everything.
\<close>

definition lib_ex :: pillow where
  "lib_ex =
     \<lparr>decode = (\<lambda>c. case c of
                  Raw b \<Rightarrow>
                    if b = ''bad'' then Inl (ImageError ''cannot identify image file'')
                    else Inr \<lparr>mode = ''RGBA'', pixels = [],
                              info = [(''exif'', ''E''), (''icc_profile'', ''I'')]\<rparr>
                | Encoded im ps \<Rightarrow> Inr im),
      exif_transpose = Inr,
      convert_pixels = (\<lambda>_ _ px. px),
      encode_error = (\<lambda>_ _. None)\<rparr>"

text \<open>
  \<^verbatim>\<open>/src\<close> holds \<^verbatim>\<open>a.heic\<close>, \<^verbatim>\<open>n.txt\<close>, the directory \<^verbatim>\<open>sub\<close> with \<^verbatim>\<open>b.HEIF\<close>, and an
  empty directory named \<^verbatim>\<open>album.heic\<close>; \<^verbatim>\<open>/vazio\<close> is an empty directory and \<^verbatim>\<open>/out\<close>
  already holds a file \<^verbatim>\<open>a.jpg\<close>.
\<close>

definition w_ex :: world where
  "w_ex =
     \<lparr>fs = Dir [(''src'', Dir [(''a.heic'', File (Raw ''x'')),
                              (''n.txt'', File (Raw ''t'')),
                              (''sub'', Dir [(''b.HEIF'', File (Raw ''y''))]),
                              (''album.heic'', Dir [])]),
                (''vazio'', Dir []),
                (''out'', Dir [(''a.jpg'', File (Raw ''old''))])],
      cwd = [], cpu_count = Some 4, trace = []\<rparr>"

text \<open>A task that converts \<^verbatim>\<open>/src/a.heic\<close> to PNG, keeping the metadata.\<close>

definition t_png :: task where
  "t_png = \<lparr>caminho_entrada = ''/src/a.heic'', caminho_saida = ''/vazio/a.png'',
      t_formato = ''png'', t_qualidade = 95, t_subsampling = 0, t_progressivo = True,
      t_otimizar = True, t_manter_metadata = True\<rparr>"

section \<open>Lemmas\<close>

subsection \<open>Worlds\<close>

lemma emit_simps [simp]:
  "fs (emit e w) = fs w" "cwd (emit e w) = cwd w" "cpu_count (emit e w) = cpu_count w"
  "trace (emit e w) = trace w @ [e]"
  by (simp_all add: emit_def)

lemma is_dir_simps [simp]:
  "is_dir None = False" "is_dir (Some (Dir es)) = True" "is_dir (Some (File c)) = False"
  by (simp_all add: is_dir_def)

lemma is_dir_Some: "is_dir x \<Longrightarrow> \<exists>es. x = Some (Dir es)"
  by (auto simp: is_dir_def split: option.splits node.splits)

lemma extends_refl [simp]: "extends a a"
  by (simp add: extends_def)

lemma extends_trans: "extends a b \<Longrightarrow> extends b c \<Longrightarrow> extends a c"
  by (simp add: extends_def)

lemma evolves_refl [simp]: "evolves w w"
  by (simp add: evolves_def)

lemma evolves_trans: "evolves a b \<Longrightarrow> evolves b c \<Longrightarrow> evolves a c"
  by (auto simp: evolves_def intro: extends_trans)

lemma evolves_emit [simp]: "evolves w (emit e w)"
  by (simp add: evolves_def)

lemma evolves_emit_right: "evolves w w' \<Longrightarrow> evolves w (emit e w')"
  by (auto simp: evolves_def)

subsection \<open>Storing a node\<close>

lemma map_of_put_entry:
  "map_of (put_entry es x xs new) c =
     (if c = x then
        (case map_of es x of
           Some v \<Rightarrow> Some (put v xs new)
         | None \<Rightarrow> if xs = [] then Some new else None)
      else map_of es c)"
  by (induction es) auto

lemma lookup_put_Cons:
  "lookup (put (Dir es) (x # xs) new) (c # cs) =
     (if c = x then
        (case map_of es x of
           Some v \<Rightarrow> lookup (put v xs new) cs
         | None \<Rightarrow> if xs = [] then lookup new cs else None)
      else lookup (Dir es) (c # cs))"
  by (simp add: map_of_put_entry split: option.splits)

lemma lookup_put_keeps:
  "\<not> is_dir (lookup n q) \<Longrightarrow> lookup n p = Some v \<Longrightarrow>
     \<exists>v'. lookup (put n q new) p = Some v' \<and> (is_dir (Some v) \<longrightarrow> is_dir (Some v'))"
proof (induction q arbitrary: n p v)
  case Nil
  then show ?case by (cases n; cases p) auto
next
  case (Cons x xs)
  show ?case
  proof (cases n)
    case (File c)
    with Cons.prems show ?thesis by (cases p) auto
  next
    case (Dir es)
    show ?thesis
    proof (cases p)
      case Nil
      with Dir Cons.prems show ?thesis by auto
    next
      case (Cons c cs)
      show ?thesis
      proof (cases "c = x")
        case False
        with Dir Cons Cons.prems show ?thesis
          by (simp add: map_of_put_entry)
      next
        case True
        with Dir Cons Cons.prems(2) obtain v0 where v0: "map_of es x = Some v0" "lookup v0 cs = Some v"
          by (auto split: option.splits)
        with Dir Cons.prems(1) have "\<not> is_dir (lookup v0 xs)" by simp
        from Cons.IH [OF this v0(2)] Dir Cons True v0 show ?thesis
          by (simp add: map_of_put_entry)
      qed
    qed
  qed
qed

lemma extends_put: "\<not> is_dir (lookup n q) \<Longrightarrow> extends n (put n q new)"
  unfolding extends_def
proof (intro allI conjI impI)
  fix p
  assume nd: "\<not> is_dir (lookup n q)"
  {
    assume "is_dir (lookup n p)"
    then obtain es where "lookup n p = Some (Dir es)" by (auto dest: is_dir_Some)
    from lookup_put_keeps [OF nd this, of new] show "is_dir (lookup (put n q new) p)" by auto
  }
  {
    assume "lookup n p \<noteq> None"
    then obtain v where "lookup n p = Some v" by auto
    from lookup_put_keeps [OF nd this, of new] show "lookup (put n q new) p \<noteq> None" by auto
  }
qed

lemma lookup_put_same:
  "is_dir (lookup n ps) \<Longrightarrow> lookup (put n (ps @ [x]) new) (ps @ [x]) = Some new"
proof (induction ps arbitrary: n)
  case Nil
  then obtain es where "n = Dir es" by (auto dest: is_dir_Some)
  then show ?case by (simp add: map_of_put_entry split: option.splits)
next
  case (Cons c cs)
  then obtain es where n: "n = Dir es" by (cases n) auto
  with Cons.prems obtain v where v: "map_of es c = Some v" "is_dir (lookup v cs)"
    by (auto split: option.splits)
  from Cons.IH [OF v(2)] n v show ?case
    by (simp add: map_of_put_entry)
qed

lemma lookup_put_root: "lookup (put n [] new) [] = Some new"
  by simp

subsection \<open>Resolution in an extended tree\<close>

lemma namei_from_extends:
  "extends a b \<Longrightarrow> namei_from a cur cs = Some r \<Longrightarrow> namei_from b cur cs = Some r"
proof (induction cs arbitrary: cur)
  case Nil
  then show ?case by simp
next
  case (Cons c cs)
  from Cons.prems(2) have d: "is_dir (lookup a cur)" by (auto split: if_splits)
  with Cons.prems(1) have d': "is_dir (lookup b cur)" by (simp add: extends_def)
  from Cons.prems(2) d d' Cons.IH [OF Cons.prems(1)] show ?case
    by (auto split: if_splits)
qed

lemma stat_evolves:
  assumes "evolves w w'" and "stat w p = Some v"
  shows "\<exists>v'. stat w' p = Some v' \<and> (is_dir (Some v) \<longrightarrow> is_dir (Some v'))"
proof -
  from assms(2) obtain cs where cs: "namei w p = Some cs" "lookup (fs w) cs = Some v"
    by (auto simp: stat_def split: option.splits)
  from assms(1) have e: "extends (fs w) (fs w')" and c: "cwd w' = cwd w"
    by (auto simp: evolves_def)
  from cs(1) have "namei w' p = Some cs"
    using namei_from_extends [OF e] c
    by (auto simp: namei_def start_dir_def split: if_splits)
  moreover from e cs(2) have "lookup (fs w') cs \<noteq> None" "is_dir (Some v) \<longrightarrow> is_dir (lookup (fs w') cs)"
    by (auto simp: extends_def)
  ultimately show ?thesis by (auto simp: stat_def)
qed

lemma exists_evolves: "evolves w w' \<Longrightarrow> os_path_exists w p \<Longrightarrow> os_path_exists w' p"
  using stat_evolves [of w w' p] by (auto simp: os_path_exists_def)

lemma isdir_evolves: "evolves w w' \<Longrightarrow> os_path_isdir w p \<Longrightarrow> os_path_isdir w' p"
  using stat_evolves [of w w' p] by (auto simp: os_path_isdir_def dest!: is_dir_Some)

subsection \<open>Prefixes of a path\<close>

lemma lookup_append:
  "lookup n (p @ q) = (case lookup n p of None \<Rightarrow> None | Some m \<Rightarrow> lookup m q)"
proof (induction p arbitrary: n)
  case Nil
  show ?case by simp
next
  case (Cons c cs)
  show ?case
  proof (cases n)
    case (File x)
    then show ?thesis by (cases q) auto
  next
    case (Dir es)
    with Cons show ?thesis by (auto split: option.splits)
  qed
qed

lemma lookup_File_nonempty: "q \<noteq> [] \<Longrightarrow> lookup (File c) q = None"
  by (cases q) auto

lemma is_dir_prefix: "lookup n (p @ q) \<noteq> None \<Longrightarrow> q \<noteq> [] \<Longrightarrow> is_dir (lookup n p)"
proof -
  assume a: "lookup n (p @ q) \<noteq> None" and q: "q \<noteq> []"
  then obtain m where m: "lookup n p = Some m" "lookup m q \<noteq> None"
    by (auto simp: lookup_append split: option.splits)
  with q show ?thesis by (cases m) (auto simp: lookup_File_nonempty)
qed

lemma is_dir_butlast: "is_dir (lookup n cur) \<Longrightarrow> is_dir (lookup n (butlast cur))"
proof (cases "cur = []")
  case True
  assume "is_dir (lookup n cur)"
  with True show ?thesis by simp
next
  case False
  assume d: "is_dir (lookup n cur)"
  from False have "cur = butlast cur @ [last cur]" by simp
  with d have "lookup n (butlast cur @ [last cur]) \<noteq> None" by (auto simp: is_dir_def split: option.splits)
  then show ?thesis by (rule is_dir_prefix) simp
qed

lemma namei_from_parent:
  "cur = [] \<or> is_dir (lookup root (butlast cur)) \<Longrightarrow> namei_from root cur cs = Some r \<Longrightarrow>
     r = [] \<or> is_dir (lookup root (butlast r))"
proof (induction cs arbitrary: cur)
  case Nil
  then show ?case by simp
next
  case (Cons c cs)
  from Cons.prems(2) have d: "is_dir (lookup root cur)" by (auto split: if_splits)
  then have b: "is_dir (lookup root (butlast cur))" by (rule is_dir_butlast)
  then have bb: "is_dir (lookup root (butlast (butlast cur)))" by (rule is_dir_butlast)
  from Cons.prems(2) d consider
      "namei_from root cur cs = Some r"
    | "namei_from root (butlast cur) cs = Some r"
    | "namei_from root (cur @ [c]) cs = Some r"
    by (auto split: if_splits)
  then show ?case
  proof cases
    case 1
    with Cons.IH [of cur] b show ?thesis by blast
  next
    case 2
    with Cons.IH [of "butlast cur"] bb show ?thesis by blast
  next
    case 3
    with Cons.IH [of "cur @ [c]"] d show ?thesis by simp
  qed
qed

lemma namei_from_parent':
  "cs \<noteq> [] \<Longrightarrow> namei_from root cur cs = Some r \<Longrightarrow> r = [] \<or> is_dir (lookup root (butlast r))"
proof -
  assume cs: "cs \<noteq> []" and r: "namei_from root cur cs = Some r"
  from cs r have "is_dir (lookup root cur)" by (cases cs) (auto split: if_splits)
  then have "is_dir (lookup root (butlast cur))" by (rule is_dir_butlast)
  with r show ?thesis using namei_from_parent by blast
qed

lemma str_split_nonempty [simp]: "str_split c s \<noteq> []"
  by (induction s) auto

subsection \<open>Creating directories\<close>

lemma makedirs_from_extends:
  "makedirs_from name a cur cs = Inr b \<Longrightarrow> extends a b"
proof (induction cs arbitrary: a cur)
  case Nil
  then show ?case by simp
next
  case (Cons c cs)
  show ?case
  proof (cases "c = [] \<or> c = ''.'' \<or> c = ''..''")
    case True
    with Cons show ?thesis by (auto split: if_splits)
  next
    case False
    show ?thesis
    proof (cases "lookup a (cur @ [c])")
      case None
      with False Cons.prems have "makedirs_from name (put a (cur @ [c]) (Dir [])) (cur @ [c]) cs = Inr b"
        by simp
      then have "extends (put a (cur @ [c]) (Dir [])) b" by (rule Cons.IH)
      moreover from None have "extends a (put a (cur @ [c]) (Dir []))"
        by (intro extends_put) simp
      ultimately show ?thesis by (blast intro: extends_trans)
    next
      case (Some v)
      with False Cons show ?thesis by (cases v) auto
    qed
  qed
qed


lemma os_makedirs_evolves: "evolves w (snd (os_makedirs w name))"
  by (auto simp: os_makedirs_def Let_def evolves_def split: sum.splits
      dest: makedirs_from_extends)

lemma os_makedirs_trace:
  "trace (snd (os_makedirs w name)) = trace w @ [Makedirs name]"
  by (auto simp: os_makedirs_def Let_def split: sum.splits)


subsection \<open>Writing a file\<close>

lemma write_file_evolves: "write_file w p c = Inr w' \<Longrightarrow> evolves w w'"
  by (auto simp: write_file_def evolves_def split: option.splits node.splits intro!: extends_put)

lemma write_file_trace: "write_file w p c = Inr w' \<Longrightarrow> trace w' = trace w"
  by (auto simp: write_file_def split: option.splits node.splits)

lemma write_file_stat:
  assumes "write_file w p c = Inr w'"
  shows "stat w' p = Some (File c)"
proof -
  from assms obtain cs where cs: "namei w p = Some cs" "\<not> is_dir (lookup (fs w) cs)"
    and w': "w' = w\<lparr>fs := put (fs w) cs (File c)\<rparr>"
    by (auto simp: write_file_def split: option.splits node.splits)
  from cs(1) have pne: "p \<noteq> []" and nf: "namei_from (fs w) (start_dir w p) (str_split CHR ''/'' p) = Some cs"
    by (auto simp: namei_def split: if_splits)
  from cs(2) have ext: "extends (fs w) (put (fs w) cs (File c))" by (rule extends_put)
  from w' have "start_dir w' p = start_dir w p" by (simp add: start_dir_def)
  with namei_from_extends [OF ext nf] pne w' have n': "namei w' p = Some cs"
    by (simp add: namei_def)
  from namei_from_parent' [OF _ nf] have "cs = [] \<or> is_dir (lookup (fs w) (butlast cs))" by simp
  then have "lookup (put (fs w) cs (File c)) cs = Some (File c)"
  proof
    assume "cs = []" then show ?thesis by simp
  next
    assume d: "is_dir (lookup (fs w) (butlast cs))"
    show ?thesis
    proof (cases "cs = []")
      case True then show ?thesis by simp
    next
      case False
      then have "cs = butlast cs @ [last cs]" by simp
      with lookup_put_same [OF d, of "last cs" "File c"] show ?thesis by simp
    qed
  qed
  with n' w' show ?thesis by (simp add: stat_def)
qed

subsection \<open>The converter of one file\<close>

lemma image_open_world: "image_open lib w path = (r, w1) \<Longrightarrow> w1 = emit (Open path) w"
  by (auto simp: image_open_def Let_def split: sum.splits)

lemma image_save_evolves:
  assumes "image_save lib im path ps w = (r, w')"
  shows "evolves w w'"
proof (cases "encode_error lib im ps")
  case (Some e)
  with assms show ?thesis by (auto simp: image_save_def Let_def)
next
  case None
  show ?thesis
  proof (cases "write_file (emit (Save path) w) path (Encoded im ps)")
    case (Inl e)
    with None assms show ?thesis by (auto simp: image_save_def Let_def)
  next
    case (Inr w2)
    then have "evolves (emit (Save path) w) w2" by (rule write_file_evolves)
    then have "evolves w w2" by (rule evolves_trans [OF evolves_emit])
    with None Inr assms show ?thesis by (auto simp: image_save_def Let_def)
  qed
qed

lemma image_save_stat:
  "image_save lib im path ps w = (Inr u, w') \<Longrightarrow> stat w' path = Some (File (Encoded im ps))"
  by (auto simp: image_save_def Let_def split: option.splits sum.splits dest: write_file_stat)

lemma salvar_imagem_evolves:
  assumes "salvar_imagem lib t w = (r, w')"
  shows "evolves w w'"
proof -
  obtain r0 w1 where o: "image_open lib w (caminho_entrada t) = (r0, w1)" by force
  then have w1: "w1 = emit (Open (caminho_entrada t)) w" by (rule image_open_world)
  then have e1: "evolves w w1" by simp
  show ?thesis
  proof (cases r0)
    case (Inl e)
    with assms o e1 show ?thesis by (simp add: salvar_imagem_def)
  next
    case (Inr im0)
    show ?thesis
    proof (cases "exif_transpose lib im0")
      case (Inl e)
      with assms o Inr e1 show ?thesis by (simp add: salvar_imagem_def)
    next
      case im: (Inr im)
      from assms o Inr im consider
          (jpeg) x where "image_save lib (convert lib im ''RGB'') (caminho_saida t) x w1 = (r, w')"
        | (png) y where "image_save lib im (caminho_saida t) y w1 = (r, w')"
        | (other) "w' = w1"
        by (auto simp: salvar_imagem_def Let_def split: if_splits)
      then show ?thesis
      proof cases
        case jpeg
        then show ?thesis using e1 by (blast intro: evolves_trans image_save_evolves)
      next
        case png
        then show ?thesis using e1 by (blast intro: evolves_trans image_save_evolves)
      next
        case other
        with e1 show ?thesis by simp
      qed
    qed
  qed
qed

lemma map_of_with_param: "key \<noteq> k \<Longrightarrow> map_of (with_param key b) k = None"
  by (simp add: with_param_def split: option.splits)

subsection \<open>The pool\<close>

lemma run_task_length [simp]: "length (tarefas (run_task lib st i)) = length (tarefas st)"
  by (simp add: run_task_def split: future.splits prod.splits)

lemma run_task_evolves: "evolves (pworld st) (pworld (run_task lib st i))"
proof (cases "i < length (tarefas st)")
  case False
  then show ?thesis by (simp add: run_task_def)
next
  case True
  show ?thesis
  proof (cases "tarefas st ! i")
    case (Finished r)
    with True show ?thesis by (simp add: run_task_def)
  next
    case (Pending t)
    obtain r w1 where s: "salvar_imagem lib t (pworld st) = (r, w1)" by force
    then have "evolves (pworld st) w1" by (rule salvar_imagem_evolves)
    with True Pending s show ?thesis by (simp add: run_task_def)
  qed
qed

lemma foldl_run_task_length [simp]:
  "length (tarefas (foldl (run_task lib) st is)) = length (tarefas st)"
  by (induction "is" arbitrary: st) auto

lemma foldl_run_task_evolves:
  "evolves (pworld st) (pworld (foldl (run_task lib) st is))"
proof (induction "is" arbitrary: st)
  case Nil
  show ?case by simp
next
  case (Cons i "is")
  from run_task_evolves [of st lib i] Cons [of "run_task lib st i"] show ?case
    by (auto intro: evolves_trans)
qed

lemma run_sched_length [simp]: "length (tarefas (run_sched lib sch st)) = length (tarefas st)"
  by (simp add: run_sched_def)

lemma run_sched_evolves: "evolves (pworld st) (pworld (run_sched lib sch st))"
  by (simp add: run_sched_def foldl_run_task_evolves)

lemma drain_length [simp]: "length (tarefas (drain lib sch st)) = length (tarefas st)"
  by (simp add: drain_def)

lemma drain_evolves: "evolves (pworld st) (pworld (drain lib sch st))"
  unfolding drain_def
  by (blast intro: evolves_trans run_sched_evolves foldl_run_task_evolves)

lemma destino_para_evolves:
  "destino_para dest fmt rel w = (r, w') \<Longrightarrow> evolves w w'"
  using os_makedirs_evolves [of w "os_path_dirname (os_path_join dest (fst (os_path_splitext rel) @ ext_out fmt))"]
  by (auto simp: destino_para_def Let_def split: prod.splits sum.splits)

lemma submit_loop_evolves:
  "submit_loop lib opts dest ficheiros sch st = (r, sch', st') \<Longrightarrow> evolves (pworld st) (pworld st')"
proof (induction ficheiros arbitrary: sch st)
  case Nil
  then show ?case by simp
next
  case (Cons f ficheiros)
  obtain caminho_abs caminho_rel where f: "f = (caminho_abs, caminho_rel)" by (cases f)
  let ?st1 = "run_sched lib sch st"
  have e1: "evolves (pworld st) (pworld ?st1)" by (rule run_sched_evolves)
  obtain d w1 where d: "destino_para dest (formato opts) caminho_rel (pworld ?st1) = (d, w1)"
    by force
  then have e2: "evolves (pworld ?st1) w1" by (rule destino_para_evolves)
  with e1 have e12: "evolves (pworld st) w1" by (rule evolves_trans)
  show ?case
  proof (cases d)
    case (Inl e)
    with Cons.prems f d e12 show ?thesis by auto
  next
    case (Inr saida)
    with Cons.prems f d consider
        "submit_loop lib opts dest ficheiros (tl sch) (?st1\<lparr>pworld := w1\<rparr>) = (r, sch', st')"
      | "submit_loop lib opts dest ficheiros (tl sch)
           (?st1\<lparr>tarefas := tarefas ?st1 @ [Pending (make_task opts caminho_abs saida)],
                 pworld := w1\<rparr>) = (r, sch', st')"
      by (auto simp: Let_def split: if_splits)
    then show ?thesis
    proof cases
      case 1
      from Cons.IH [OF this] e12 show ?thesis by (auto intro: evolves_trans)
    next
      case 2
      from Cons.IH [OF this] e12 show ?thesis by (auto intro: evolves_trans)
    qed
  qed
qed

lemma tally_evolves: "tally rs (c0, e0, w) = (c, e, w') \<Longrightarrow> evolves w w'"
proof (induction rs arbitrary: c0 e0 w)
  case Nil
  then show ?case by simp
next
  case (Cons r rs)
  show ?case
  proof (cases r)
    case (Inl x)
    with Cons.prems have "tally rs (c0, e0 + 1, emit (Print (Erro x)) w) = (c, e, w')" by simp
    from Cons.IH [OF this] show ?thesis by (blast intro: evolves_trans evolves_emit)
  next
    case (Inr u)
    with Cons.prems have "tally rs (c0 + 1, e0, w) = (c, e, w')" by simp
    then show ?thesis by (rule Cons.IH)
  qed
qed

lemma pool_block_evolves:
  assumes "pool_block lib opts dest ficheiros sch st = (r, st')"
  shows "evolves (pworld st) (pworld st')"
proof -
  obtain r1 sch1 st1 where s: "submit_loop lib opts dest ficheiros sch st = (r1, sch1, st1)"
    by (metis prod_cases3)
  then have e1: "evolves (pworld st) (pworld st1)" by (rule submit_loop_evolves)
  have e2: "evolves (pworld st1) (pworld (drain lib sch1 st1))" by (rule drain_evolves)
  show ?thesis
  proof (cases r1)
    case (Inl e)
    with assms s e1 e2 show ?thesis by (auto simp: pool_block_def intro: evolves_trans)
  next
    case (Inr u)
    obtain c e w where t: "tally (map snd (completed (drain lib sch1 st1))) (0, 0, pworld (drain lib sch1 st1)) = (c, e, w)"
      by (metis prod_cases3)
    then have "evolves (pworld (drain lib sch1 st1)) w" by (rule tally_evolves)
    with e1 e2 have "evolves (pworld st) w" by (blast intro: evolves_trans)
    with assms s Inr t show ?thesis by (auto simp: pool_block_def Let_def)
  qed
qed

subsection \<open>Consistency of the pool\<close>

lemma pool_inv_fresh: "pool_inv (fresh_pool w)"
  by (simp add: pool_inv_def fresh_pool_def)

lemma pool_inv_run_task: "pool_inv st \<Longrightarrow> pool_inv (run_task lib st i)"
proof (cases "i < length (tarefas st)")
  case False
  assume "pool_inv st"
  with False show ?thesis by (simp add: run_task_def)
next
  case True
  assume inv: "pool_inv st"
  show ?thesis
  proof (cases "tarefas st ! i")
    case (Finished r)
    with True inv show ?thesis by (simp add: run_task_def)
  next
    case (Pending t)
    obtain r w1 where s: "salvar_imagem lib t (pworld st) = (r, w1)" by force
    from inv Pending True have notin: "i \<notin> fst ` set (completed st)"
      by (auto simp: pool_inv_def)
    have eq: "run_task lib st i =
        st\<lparr>tarefas := (tarefas st)[i := Finished r], completed := completed st @ [(i, r)], pworld := w1\<rparr>"
      using True Pending s by (simp add: run_task_def)
    show ?thesis
      unfolding eq pool_inv_def
    proof (intro conjI allI)
      from inv notin show "distinct (map fst (completed (st\<lparr>tarefas := (tarefas st)[i := Finished r],
          completed := completed st @ [(i, r)], pworld := w1\<rparr>)))"
        by (simp add: pool_inv_def)
    next
      fix j r'
      show "((j, r') \<in> set (completed (st\<lparr>tarefas := (tarefas st)[i := Finished r],
                completed := completed st @ [(i, r)], pworld := w1\<rparr>))) =
            (j < length (tarefas (st\<lparr>tarefas := (tarefas st)[i := Finished r],
                completed := completed st @ [(i, r)], pworld := w1\<rparr>)) \<and>
             tarefas (st\<lparr>tarefas := (tarefas st)[i := Finished r],
                completed := completed st @ [(i, r)], pworld := w1\<rparr>) ! j = Finished r')"
      proof (cases "j = i")
        case True
        with notin \<open>i < length (tarefas st)\<close> show ?thesis by (auto simp: image_iff)
      next
        case False
        with inv show ?thesis by (auto simp: pool_inv_def)
      qed
    qed
  qed
qed

lemma pool_inv_foldl: "pool_inv st \<Longrightarrow> pool_inv (foldl (run_task lib) st is)"
  by (induction "is" arbitrary: st) (auto intro: pool_inv_run_task)

lemma pool_inv_run_sched: "pool_inv st \<Longrightarrow> pool_inv (run_sched lib sch st)"
  by (simp add: run_sched_def pool_inv_foldl)

lemma pool_inv_drain: "pool_inv st \<Longrightarrow> pool_inv (drain lib sch st)"
  by (simp add: drain_def pool_inv_foldl pool_inv_run_sched)

lemma pool_inv_submit:
  "pool_inv st \<Longrightarrow> pool_inv (st\<lparr>tarefas := tarefas st @ [Pending t], pworld := w\<rparr>)"
  by (auto simp: pool_inv_def nth_append)

lemma pool_inv_pworld: "pool_inv st \<Longrightarrow> pool_inv (st\<lparr>pworld := w\<rparr>)"
  by (simp add: pool_inv_def)

lemma pool_inv_submit_loop:
  "pool_inv st \<Longrightarrow> submit_loop lib opts dest ficheiros sch st = (r, sch', st') \<Longrightarrow> pool_inv st'"
proof (induction ficheiros arbitrary: sch st)
  case Nil
  then show ?case by simp
next
  case (Cons f ficheiros)
  obtain caminho_abs caminho_rel where f: "f = (caminho_abs, caminho_rel)" by (cases f)
  let ?st1 = "run_sched lib sch st"
  have i1: "pool_inv ?st1" using Cons.prems(1) by (rule pool_inv_run_sched)
  obtain d w1 where d: "destino_para dest (formato opts) caminho_rel (pworld ?st1) = (d, w1)"
    by force
  show ?case
  proof (cases d)
    case (Inl e)
    with Cons.prems(2) f d i1 show ?thesis by (auto intro: pool_inv_pworld)
  next
    case (Inr saida)
    with Cons.prems(2) f d consider
        "submit_loop lib opts dest ficheiros (tl sch) (?st1\<lparr>pworld := w1\<rparr>) = (r, sch', st')"
      | "submit_loop lib opts dest ficheiros (tl sch)
           (?st1\<lparr>tarefas := tarefas ?st1 @ [Pending (make_task opts caminho_abs saida)],
                 pworld := w1\<rparr>) = (r, sch', st')"
      by (auto simp: Let_def split: if_splits)
    then show ?thesis
    proof cases
      case 1
      from Cons.IH [OF pool_inv_pworld [OF i1] this] show ?thesis .
    next
      case 2
      from Cons.IH [OF pool_inv_submit [OF i1] this] show ?thesis .
    qed
  qed
qed

subsection \<open>Every task runs to its end\<close>

lemma run_task_is_finished:
  "i < length (tarefas st) \<Longrightarrow> is_finished (tarefas (run_task lib st i) ! i)"
  by (auto simp: run_task_def is_finished_def split: future.splits prod.splits)

lemma run_task_keeps_finished:
  "j < length (tarefas st) \<Longrightarrow> is_finished (tarefas st ! j) \<Longrightarrow>
     is_finished (tarefas (run_task lib st i) ! j)"
  by (cases "i = j") (auto simp: run_task_def is_finished_def split: future.splits prod.splits)

lemma foldl_keeps_finished:
  "j < length (tarefas st) \<Longrightarrow> is_finished (tarefas st ! j) \<Longrightarrow>
     is_finished (tarefas (foldl (run_task lib) st is) ! j)"
proof (induction "is" arbitrary: st)
  case Nil
  then show ?case by simp
next
  case (Cons i "is")
  from Cons.prems have "is_finished (tarefas (run_task lib st i) ! j)"
    by (intro run_task_keeps_finished)
  with Cons.IH [of "run_task lib st i"] Cons.prems(1) show ?case by simp
qed

lemma foldl_finishes:
  "j \<in> set is \<Longrightarrow> j < length (tarefas st) \<Longrightarrow>
     is_finished (tarefas (foldl (run_task lib) st is) ! j)"
proof (induction "is" arbitrary: st)
  case Nil
  then show ?case by simp
next
  case (Cons i "is")
  show ?case
  proof (cases "j = i")
    case True
    with Cons.prems(2) have "is_finished (tarefas (run_task lib st i) ! j)"
      by (simp add: run_task_is_finished)
    with Cons.prems(2) show ?thesis by (simp add: foldl_keeps_finished)
  next
    case False
    with Cons.prems have "j \<in> set is" by simp
    with Cons.IH [of "run_task lib st i"] Cons.prems(2) show ?thesis by simp
  qed
qed

lemma drain_all_finished: "\<forall>f \<in> set (tarefas (drain lib sch st)). is_finished f"
proof
  fix f
  assume "f \<in> set (tarefas (drain lib sch st))"
  then obtain j where j: "j < length (tarefas st)" "f = tarefas (drain lib sch st) ! j"
    by (auto simp: in_set_conv_nth)
  then have "j \<in> set [0 ..< length (tarefas (run_sched lib sch st))]" by simp
  from foldl_finishes [OF this, of "run_sched lib sch st" lib] j show "is_finished f"
    by (simp add: drain_def)
qed

subsection \<open>Counting outcomes\<close>

lemma tally_counts:
  "tally rs (c0, e0, w) = (c, e, w') \<Longrightarrow>
     c = c0 + int (length (filter is_success rs))
     \<and> e = e0 + int (length (filter (\<lambda>r. \<not> is_success r) rs))"
proof (induction rs arbitrary: c0 e0 w)
  case Nil
  then show ?case by simp
next
  case (Cons r rs)
  show ?case
  proof (cases r)
    case (Inl x)
    with Cons.prems have "tally rs (c0, e0 + 1, emit (Print (Erro x)) w) = (c, e, w')" by simp
    from Cons.IH [OF this] Inl show ?thesis by (simp add: is_success_def)
  next
    case (Inr u)
    with Cons.prems have "tally rs (c0 + 1, e0, w) = (c, e, w')" by simp
    from Cons.IH [OF this] Inr show ?thesis by (simp add: is_success_def)
  qed
qed

lemma finished_pool_complete:
  assumes inv: "pool_inv st" and fin: "\<forall>f \<in> set (tarefas st). is_finished f"
  shows "fst ` set (completed st) = {..<length (tarefas st)}"
    and "length (completed st) = length (tarefas st)"
proof -
  show s: "fst ` set (completed st) = {..<length (tarefas st)}"
  proof (intro equalityI subsetI)
    fix i assume "i \<in> fst ` set (completed st)"
    with inv show "i \<in> {..<length (tarefas st)}" by (auto simp: pool_inv_def)
  next
    fix i assume "i \<in> {..<length (tarefas st)}"
    then have i: "i < length (tarefas st)" by simp
    with fin have "is_finished (tarefas st ! i)" by simp
    then obtain r where "tarefas st ! i = Finished r"
      by (auto simp: is_finished_def split: future.splits)
    with inv i have "(i, r) \<in> set (completed st)" by (simp add: pool_inv_def)
    then show "i \<in> fst ` set (completed st)" by force
  qed
  from inv have "distinct (map fst (completed st))" by (simp add: pool_inv_def)
  then have "card (set (map fst (completed st))) = length (map fst (completed st))"
    by (rule distinct_card)
  with s show "length (completed st) = length (tarefas st)" by simp
qed



subsection \<open>What depends on the tree and the working directory only\<close>


lemma abspath_cong: "cwd w = cwd w' \<Longrightarrow> os_path_abspath w p = os_path_abspath w' p"
  by (simp add: os_path_abspath_def os_getcwd_def)





lemma listar_world:
  "snd (listar_ficheiros_heic w p r) =
     emit (if r then Walk (os_path_abspath w p) else Listdir (os_path_abspath w p)) w"
  by (simp add: listar_ficheiros_heic_def Let_def os_walk_def os_listdir_def
      split: option.splits node.splits prod.splits)




subsection \<open>The run after its checks\<close>

lemma evolves_trace: "evolves w w' \<Longrightarrow> \<exists>es. trace w' = trace w @ es"
  by (simp add: evolves_def)

lemma listar_evolves: "listar_ficheiros_heic w a r = (res, w3) \<Longrightarrow> evolves w w3"
  using listar_world [of w a r] by simp

lemma converter_lista_evolves:
  assumes "converter_lista lib sch pasta_origem pasta_destino opts d ficheiros w3 = (res, w')"
  shows "evolves w3 w'"
proof (cases "length ficheiros = 0")
  case True
  with assms show ?thesis by (auto simp: converter_lista_def)
next
  case False
  let ?w5 = "emit (Print (Opcoes (formato opts) (qualidade opts) (subsampling opts)
               (progressivo opts) (otimizar opts) (manter_metadata opts) (recursivo opts)
               (overwrite opts) (resolve_threads w3 (threads opts))))
              (emit (Print (A_converter (length ficheiros) pasta_origem pasta_destino)) w3)"
  have e5: "evolves w3 ?w5" by (blast intro: evolves_trans evolves_emit)
  obtain rp st where p: "pool_block lib opts d ficheiros sch (fresh_pool ?w5) = (rp, st)"
    by force
  from pool_block_evolves [OF p] have "evolves ?w5 (pworld st)" by (simp add: fresh_pool_def)
  with e5 have e6: "evolves w3 (pworld st)" by (rule evolves_trans)
  show ?thesis
  proof (cases rp)
    case (Inl e)
    with assms False p e6 show ?thesis by (simp add: converter_lista_def Let_def)
  next
    case (Inr ce)
    obtain c e where ce: "ce = (c, e)" by (cases ce)
    with assms False p Inr have
      "w' = emit (Print (Com_erro e)) (emit (Print (Convertidos c))
              (emit (Print Conversao_concluida) (pworld st)))"
      by (simp add: converter_lista_def Let_def)
    with e6 show ?thesis by (blast intro: evolves_trans evolves_emit)
  qed
qed

lemma aviso_qualidade_simps [simp]:
  "fs (aviso_qualidade opts w) = fs w" "cwd (aviso_qualidade opts w) = cwd w"
  "trace (aviso_qualidade opts w) = trace w
     @ (if qualidade opts > 95 \<and> formato opts = ''jpeg'' then [Print Aviso_qualidade] else [])"
  by (simp_all add: aviso_qualidade_def)

lemma abspath_aviso [simp]:
  "os_path_abspath (aviso_qualidade opts w) p = os_path_abspath w p"
  by (simp add: abspath_cong [of "aviso_qualidade opts w" w])

lemma converter_heic_checked:
  assumes "os_path_isdir w pasta_origem"
    and "str_lower (formato opts) \<in> {''jpeg'', ''png''}"
  shows "converter_heic lib sch pasta_origem pasta_destino opts w =
     (case os_makedirs (aviso_qualidade (opts\<lparr>formato := str_lower (formato opts)\<rparr>) w)
             (os_path_abspath w pasta_destino) of
        (Inl e, w2) \<Rightarrow> (Inl e, w2)
      | (Inr _, w2) \<Rightarrow>
          (case listar_ficheiros_heic w2 (os_path_abspath w pasta_origem) (recursivo opts) of
             (Inl e, w3) \<Rightarrow> (Inl e, w3)
           | (Inr ficheiros, w3) \<Rightarrow>
               converter_lista lib sch pasta_origem pasta_destino
                 (opts\<lparr>formato := str_lower (formato opts)\<rparr>)
                 (os_path_abspath w pasta_destino) ficheiros w3))"
proof -
  from assms(2) have "\<not> (str_lower (formato opts) \<noteq> ''jpeg'' \<and> str_lower (formato opts) \<noteq> ''png'')"
    by auto
  with assms(1) show ?thesis
    by (auto simp: converter_heic_def Let_def cong: prod.case_cong sum.case_cong)
qed

lemma converter_heic_trace:
  assumes "os_path_isdir w pasta_origem"
    and "str_lower (formato opts) \<in> {''jpeg'', ''png''}"
  shows "\<exists>rest. trace (snd (converter_heic lib sch pasta_origem pasta_destino opts w)) =
           trace w
           @ (if qualidade opts > 95 \<and> str_lower (formato opts) = ''jpeg''
              then [Print Aviso_qualidade] else [])
           @ Makedirs (os_path_abspath w pasta_destino) # rest"
proof -
  let ?opts = "opts\<lparr>formato := str_lower (formato opts)\<rparr>"
  let ?w1 = "aviso_qualidade ?opts w"
  let ?d = "os_path_abspath w pasta_destino"
  note unfold = converter_heic_checked [OF assms, of lib sch pasta_destino]
  obtain r2 w2 where m: "os_makedirs ?w1 ?d = (r2, w2)" by force
  have t2: "trace w2 = trace ?w1 @ [Makedirs ?d]"
    using os_makedirs_trace [of ?w1 ?d] m by simp
  obtain res w' where c: "converter_heic lib sch pasta_origem pasta_destino opts w = (res, w')"
    by force
  have "evolves w2 w'"
  proof (cases r2)
    case (Inl e)
    with c m unfold show ?thesis by simp
  next
    case (Inr u)
    obtain r3 w3 where l: "listar_ficheiros_heic w2 (os_path_abspath w pasta_origem) (recursivo opts) = (r3, w3)"
      by force
    then have e3: "evolves w2 w3" by (rule listar_evolves)
    show ?thesis
    proof (cases r3)
      case (Inl e)
      with c m unfold Inr l e3 show ?thesis by simp
    next
      case ficheiros: (Inr ficheiros)
      with c m unfold Inr l have
        "converter_lista lib sch pasta_origem pasta_destino ?opts ?d ficheiros w3 = (res, w')"
        by simp
      from converter_lista_evolves [OF this] e3 show ?thesis by (blast intro: evolves_trans)
    qed
  qed
  then obtain es where "trace w' = trace w2 @ es" by (auto dest: evolves_trace)
  with t2 c show ?thesis by auto
qed

subsection \<open>The last occurrence of a character\<close>

lemma rfind_ge: "- 1 \<le> rfind c s"
  by (induction s) (auto simp: Let_def)

lemma rfind_less: "rfind c s < int (length s)"
  by (induction s) (auto simp: Let_def)

lemma rfind_notin: "c \<notin> set s \<Longrightarrow> rfind c s = - 1"
  by (induction s) (auto simp: Let_def)

lemma rfind_in: "c \<in> set s \<Longrightarrow> 0 \<le> rfind c s"
  using rfind_ge [of c] by (induction s) (auto simp: Let_def)

lemma rfind_neg: "\<not> 0 \<le> rfind c s \<Longrightarrow> rfind c s = - 1"
  using rfind_ge [of c s] by simp

lemma rfind_append:
  "rfind c (xs @ ys) = (if 0 \<le> rfind c ys then int (length xs) + rfind c ys else rfind c xs)"
  by (induction xs) (auto simp: Let_def dest: rfind_neg)

lemma rfind_snoc_same: "rfind c (xs @ [c]) = int (length xs)"
  by (simp add: rfind_append Let_def)

lemma rfind_last: "xs \<noteq> [] \<Longrightarrow> last xs = c \<Longrightarrow> rfind c xs = int (length xs) - 1"
proof -
  assume "xs \<noteq> []" "last xs = c"
  then have "xs = butlast xs @ [c]" by (metis append_butlast_last_id)
  then have "rfind c xs = int (length (butlast xs))" by (metis rfind_snoc_same)
  moreover from \<open>xs \<noteq> []\<close> have "0 < length xs" by simp
  ultimately show ?thesis by (simp add: of_nat_diff)
qed

lemma rfind_nth: "0 \<le> rfind c s \<Longrightarrow> s ! nat (rfind c s) = c"
proof (induction s)
  case Nil
  then show ?case by simp
next
  case (Cons x s)
  show ?case
  proof (cases "0 \<le> rfind c s")
    case True
    with Cons.IH have "s ! nat (rfind c s) = c" by simp
    with True show ?thesis by (simp add: Let_def nat_add_distrib)
  next
    case False
    with Cons.prems show ?thesis by (auto simp: Let_def split: if_splits)
  qed
qed

subsection \<open>Splitting off the extension\<close>

lemma splitext_loop_shift:
  "splitext_loop (p @ f) (length p + i) (length p + d) = splitext_loop f i d"
proof (induction f i d rule: splitext_loop.induct)
  case (1 f i d)
  show ?case
  proof (cases "i < d")
    case False
    then show ?thesis
      by (simp add: splitext_loop.simps [of "p @ f"] splitext_loop.simps [of f])
  next
    case True
    show ?thesis
    proof (cases "f ! i \<noteq> CHR ''.''")
      case nd: True
      with True show ?thesis
        by (simp add: splitext_loop.simps [of "p @ f"] splitext_loop.simps [of f] nth_append)
    next
      case False
      with True "1.IH" have "splitext_loop (p @ f) (length p + (i + 1)) (length p + d) = splitext_loop f (i + 1) d"
        by simp
      with True False show ?thesis
        by (simp add: splitext_loop.simps [of "p @ f" "length p + i"] splitext_loop.simps [of f i]
            nth_append add.assoc)
    qed
  qed
qed

lemma splitext_concat: "fst (os_path_splitext p) @ snd (os_path_splitext p) = p"
  by (simp add: os_path_splitext_def Let_def)

lemma splitext_append:
  assumes f: "CHR ''/'' \<notin> set f" and p: "p = [] \<or> last p = CHR ''/''"
  shows "os_path_splitext (p @ f) = (p @ fst (os_path_splitext f), snd (os_path_splitext f))"
proof -
  from f have sf: "rfind CHR ''/'' f = - 1" by (rule rfind_notin)
  have sp: "rfind CHR ''/'' p = int (length p) - 1"
    using p by (cases "p = []") (auto simp: rfind_last)
  from sf sp have sep: "rfind CHR ''/'' (p @ f) = int (length p) - 1"
    by (simp add: rfind_append)
  show ?thesis
  proof (cases "0 \<le> rfind CHR ''.'' f")
    case True
    define d where "d = nat (rfind CHR ''.'' f)"
    with True have d: "rfind CHR ''.'' f = int d" by simp
    then have dot: "rfind CHR ''.'' (p @ f) = int (length p + d)"
      by (simp add: rfind_append)
    have loop: "splitext_loop (p @ f) (length p) (length p + d) = splitext_loop f 0 d"
      using splitext_loop_shift [of p f 0 d] by simp
    show ?thesis
      using sep dot sf d loop
      by (simp add: os_path_splitext_def Let_def nat_add_distrib)
  next
    case False
    with rfind_ge [of "CHR ''.''" f] have df: "rfind CHR ''.'' f = - 1" by simp
    then have "rfind CHR ''.'' (p @ f) = rfind CHR ''.'' p" by (simp add: rfind_append)
    with rfind_less [of "CHR ''.''" p] have "rfind CHR ''.'' (p @ f) \<le> int (length p) - 1"
      by simp
    with sep df sf show ?thesis
      by (simp add: os_path_splitext_def Let_def)
  qed
qed

subsection \<open>Splitting at a character\<close>

lemma str_split_notin: "c \<notin> set xs \<Longrightarrow> str_split c xs = [xs]"
  by (induction xs) auto

lemma str_split_append: "str_split c (xs @ c # ys) = str_split c xs @ str_split c ys"
proof (induction xs)
  case Nil
  show ?case by simp
next
  case (Cons x xs)
  have ne: "str_split c xs \<noteq> []" by simp
  show ?case
  proof (cases "x = c")
    case True
    with Cons show ?thesis by simp
  next
    case False
    with Cons ne show ?thesis by (simp add: hd_append)
  qed
qed

lemma str_split_no_sep: "x \<in> set (str_split c s) \<Longrightarrow> c \<notin> set x"
proof (induction s arbitrary: x)
  case Nil
  then show ?case by simp
next
  case (Cons a s)
  have ne: "str_split c s \<noteq> []" by simp
  show ?case
  proof (cases "a = c")
    case True
    with Cons show ?thesis by auto
  next
    case False
    with Cons.prems have "x = a # hd (str_split c s) \<or> x \<in> set (tl (str_split c s))" by simp
    then show ?thesis
    proof
      assume "x = a # hd (str_split c s)"
      moreover from ne have "hd (str_split c s) \<in> set (str_split c s)" by simp
      ultimately show ?thesis using Cons.IH False by auto
    next
      assume "x \<in> set (tl (str_split c s))"
      with ne have "x \<in> set (str_split c s)" by (metis list.set_sel(2))
      then show ?thesis by (rule Cons.IH)
    qed
  qed
qed

lemma str_split_replicate:
  "str_split c (replicate k c @ s) = replicate k [] @ str_split c s"
  by (induction k) auto

lemma str_split_join:
  "cs \<noteq> [] \<Longrightarrow> \<forall>x \<in> set cs. c \<notin> set x \<Longrightarrow> str_split c (str_join [c] cs) = cs"
proof (induction cs)
  case Nil
  then show ?case by simp
next
  case (Cons p cs)
  show ?case
  proof (cases cs)
    case Nil
    with Cons.prems show ?thesis by (simp add: str_split_notin)
  next
    case (Cons q ps)
    with Cons.IH Cons.prems have "str_split c (str_join [c] (q # ps)) = q # ps" by simp
    moreover from Cons.prems have "str_split c p = [p]" by (simp add: str_split_notin)
    ultimately show ?thesis using Cons by (simp add: str_split_append)
  qed
qed

subsection \<open>Normal paths\<close>

lemma normpath_step_abs: "0 < k \<Longrightarrow> normpath_step k = normpath_step 1"
  by (intro ext) (simp add: normpath_step_def)

lemma normpath_step_valid:
  "\<forall>x \<in> set acc. valid_name x \<Longrightarrow> CHR ''/'' \<notin> set c \<Longrightarrow>
     \<forall>x \<in> set (normpath_step 1 acc c). valid_name x"
  by (auto simp: normpath_step_def valid_name_def dest: in_set_butlastD)

lemma foldl_normpath_step_valid:
  "\<forall>x \<in> set acc. valid_name x \<Longrightarrow> \<forall>c \<in> set cs. CHR ''/'' \<notin> set c \<Longrightarrow>
     \<forall>x \<in> set (foldl (normpath_step 1) acc cs). valid_name x"
proof (induction cs arbitrary: acc)
  case Nil
  then show ?case by simp
next
  case (Cons c cs)
  from Cons.prems have "\<forall>x \<in> set (normpath_step 1 acc c). valid_name x"
    by (intro normpath_step_valid) simp_all
  with Cons.IH [of "normpath_step 1 acc c"] Cons.prems(2) show ?case by simp
qed

lemma norm_components_valid: "\<forall>x \<in> set (norm_components q). valid_name x"
  unfolding norm_components_def
  by (rule foldl_normpath_step_valid) (auto dest: str_split_no_sep)

lemma isabs_Cons: "os_path_isabs p \<longleftrightarrow> (\<exists>r. p = CHR ''/'' # r)"
  by (cases p) (auto simp: os_path_isabs_def)

lemma initial_slashes_abs: "os_path_isabs q \<Longrightarrow> 0 < initial_slashes_of q"
  by (simp add: initial_slashes_of_def)

lemma normpath_abs:
  assumes "os_path_isabs q"
  shows "os_path_normpath q =
           replicate (initial_slashes_of q) CHR ''/'' @ str_join ''/'' (norm_components q)"
proof -
  from assms have ne: "q \<noteq> []" by (auto simp: isabs_Cons)
  from assms have k: "0 < initial_slashes_of q" by (rule initial_slashes_abs)
  then have "replicate (initial_slashes_of q) CHR ''/'' \<noteq> []" by simp
  moreover from k have "normpath_step (initial_slashes_of q) = normpath_step 1"
    by (rule normpath_step_abs)
  ultimately show ?thesis using ne
    by (simp add: os_path_normpath_def Let_def norm_components_def)
qed

lemma normpath_isabs: "os_path_isabs q \<Longrightarrow> os_path_isabs (os_path_normpath q)"
proof -
  assume a: "os_path_isabs q"
  then obtain k where "initial_slashes_of q = Suc k"
    using initial_slashes_abs [OF a] by (cases "initial_slashes_of q") auto
  with normpath_abs [OF a] show ?thesis by (simp add: os_path_isabs_def)
qed

lemma components_normpath:
  assumes "os_path_isabs q"
  shows "filter (\<lambda>x. x \<noteq> []) (str_split CHR ''/'' (os_path_normpath q)) = norm_components q"
proof -
  let ?cs = "norm_components q"
  have v: "\<forall>x \<in> set ?cs. valid_name x" by (rule norm_components_valid)
  have "filter (\<lambda>x. x \<noteq> []) (str_split CHR ''/'' (str_join ''/'' ?cs)) = ?cs"
  proof (cases "?cs = []")
    case True
    then show ?thesis by simp
  next
    case False
    moreover from v have "\<forall>x \<in> set ?cs. CHR ''/'' \<notin> set x" by (simp add: valid_name_def)
    ultimately have "str_split CHR ''/'' (str_join ''/'' ?cs) = ?cs" by (rule str_split_join)
    moreover from v have "filter (\<lambda>x. x \<noteq> []) ?cs = ?cs"
      by (auto simp: valid_name_def filter_id_conv)
    ultimately show ?thesis by simp
  qed
  then show ?thesis
    by (simp add: normpath_abs [OF assms] str_split_replicate)
qed

lemma getcwd_isabs: "os_path_isabs (os_getcwd w)"
  by (simp add: os_getcwd_def os_path_isabs_def)

lemma join_isabs: "os_path_isabs p \<Longrightarrow> os_path_isabs (os_path_join p n)"
  by (auto simp: os_path_join_def isabs_Cons)

lemma abspath_isabs: "os_path_isabs (os_path_abspath w p)"
  by (simp add: os_path_abspath_def abspath_in_def normpath_isabs join_isabs getcwd_isabs)

lemma components_abs: "os_path_isabs q \<Longrightarrow> components w q = norm_components q"
  by (simp add: components_def os_path_abspath_def abspath_in_def components_normpath)

lemma valid_name_not_abs: "valid_name n \<Longrightarrow> \<not> os_path_isabs n"
  by (auto simp: valid_name_def isabs_Cons)

lemma norm_components_join:
  assumes p: "os_path_isabs p" and n: "valid_name n"
  shows "norm_components (os_path_join p n) = norm_components p @ [n]"
proof -
  from n have nn: "CHR ''/'' \<notin> set n" by (simp add: valid_name_def)
  from n have step: "normpath_step 1 acc n = acc @ [n]" for acc
    by (simp add: normpath_step_def valid_name_def)
  from p have ne: "p \<noteq> []" by (auto simp: isabs_Cons)
  show ?thesis
  proof (cases "last p = CHR ''/''")
    case True
    with ne obtain p' where pp: "p = p' @ ''/''" by (metis append_butlast_last_id)
    have j: "os_path_join p n = p' @ CHR ''/'' # n"
      using n by (simp add: pp os_path_join_def valid_name_not_abs)
    have "str_split CHR ''/'' (p' @ CHR ''/'' # n) = str_split CHR ''/'' p' @ [n]"
      using nn by (simp add: str_split_append str_split_notin)
    moreover have "str_split CHR ''/'' p = str_split CHR ''/'' p' @ [[]]"
      using str_split_append [of "CHR ''/''" p' "[]"] by (simp add: pp)
    moreover have "normpath_step 1 acc [] = acc" for acc by (simp add: normpath_step_def)
    ultimately show ?thesis
      by (simp add: norm_components_def j step del: One_nat_def)
  next
    case False
    with ne n have j: "os_path_join p n = p @ CHR ''/'' # n"
      by (simp add: os_path_join_def valid_name_not_abs)
    have "str_split CHR ''/'' (p @ CHR ''/'' # n) = str_split CHR ''/'' p @ [n]"
      using nn by (simp add: str_split_append str_split_notin)
    then show ?thesis by (simp add: norm_components_def j step del: One_nat_def)
  qed
qed

lemma foldl_join_isabs:
  "os_path_isabs p \<Longrightarrow> os_path_isabs (foldl os_path_join p ns)"
  by (induction ns arbitrary: p) (simp_all add: join_isabs)

lemma norm_components_foldl_join:
  "os_path_isabs p \<Longrightarrow> \<forall>n \<in> set ns. valid_name n \<Longrightarrow>
     norm_components (foldl os_path_join p ns) = norm_components p @ ns"
proof (induction ns arbitrary: p)
  case Nil
  show ?case by simp
next
  case (Cons n ns)
  from Cons.prems have "norm_components (foldl os_path_join (os_path_join p n) ns)
      = norm_components (os_path_join p n) @ ns"
    by (intro Cons.IH) (simp_all add: join_isabs)
  with Cons.prems show ?case by (simp add: norm_components_join)
qed

subsection \<open>What the walk yields\<close>

lemma wf_entries_map_of: "wf_entries es \<Longrightarrow> map_of es c = Some v \<Longrightarrow> wf_node v"
  by (induction es) (auto split: if_splits)

lemma wf_entries_names: "wf_entries es \<Longrightarrow> \<forall>n \<in> set (map fst es). valid_name n"
  by (induction es) force+

lemma wf_lookup: "wf_node n \<Longrightarrow> lookup n p = Some m \<Longrightarrow> wf_node m"
proof (induction p arbitrary: n)
  case Nil
  then show ?case by simp
next
  case (Cons c cs)
  then obtain es where n: "n = Dir es" by (cases n) auto
  with Cons.prems obtain v where v: "map_of es c = Some v" "lookup v cs = Some m"
    by (auto split: option.splits)
  from Cons.prems(1) n v(1) have "wf_node v" by (auto intro: wf_entries_map_of)
  then show ?case using v(2) by (rule Cons.IH)
qed

lemma filenames_subset: "set (filenames es) \<subseteq> set (map fst es)"
  by (auto simp: filenames_def)

lemma walk_names:
  "wf_node n \<Longrightarrow> (raiz, ds, names) \<in> set (walk_node t n) \<Longrightarrow>
     \<exists>path. raiz = foldl os_path_join t path \<and> (\<forall>x \<in> set path. valid_name x)
        \<and> (\<forall>f \<in> set names. valid_name f)"
  "wf_entries es \<Longrightarrow> (raiz, ds, names) \<in> set (walk_entries t es) \<Longrightarrow>
     \<exists>path. raiz = foldl os_path_join t path \<and> (\<forall>x \<in> set path. valid_name x)
        \<and> (\<forall>f \<in> set names. valid_name f)"
proof (induction t n and t es rule: walk_node_walk_entries.induct)
  case (1 t c)
  then show ?case by simp
next
  case (2 t es)
  from "2.prems"(2) consider "(raiz, ds, names) = (t, dirnames es, filenames es)"
    | "(raiz, ds, names) \<in> set (walk_entries t es)"
    by auto
  then show ?case
  proof cases
    case 1
    with "2.prems"(1) wf_entries_names [of es] filenames_subset [of es]
    have "\<forall>f \<in> set names. valid_name f" by auto
    with 1 have "raiz = foldl os_path_join t [] \<and> (\<forall>x \<in> set []. valid_name x)
        \<and> (\<forall>f \<in> set names. valid_name f)" by simp
    then show ?thesis by blast
  next
    case 2
    with "2.IH" "2.prems"(1) show ?thesis by simp
  qed
next
  case (3 t)
  then show ?case by simp
next
  case (4 t n v es)
  from "4.prems"(2) consider "(raiz, ds, names) \<in> set (walk_node (os_path_join t n) v)"
    | "(raiz, ds, names) \<in> set (walk_entries t es)"
    by auto
  then show ?case
  proof cases
    case 1
    with "4.IH"(1) "4.prems"(1) obtain path where
      p: "raiz = foldl os_path_join (os_path_join t n) path" "\<forall>x \<in> set path. valid_name x"
         "\<forall>f \<in> set names. valid_name f"
      by auto
    with "4.prems"(1) have "raiz = foldl os_path_join t (n # path) \<and> (\<forall>x \<in> set (n # path). valid_name x)
        \<and> (\<forall>f \<in> set names. valid_name f)" by simp
    then show ?thesis by blast
  next
    case 2
    with "4.IH"(2) "4.prems"(1) show ?thesis by simp
  qed
qed

subsection \<open>What the enumerator yields\<close>

lemma listar_raiz_member:
  "listar_raiz w a raiz names = Inr l \<Longrightarrow> (caminho_abs, caminho_rel) \<in> set l \<Longrightarrow>
     \<exists>f \<in> set names. tem_ext_heic f \<and> caminho_abs = os_path_join raiz f
        \<and> os_path_relpath w caminho_abs a = Inr caminho_rel"
proof (induction names arbitrary: l)
  case Nil
  then show ?case by simp
next
  case (Cons f names)
  show ?case
  proof (cases "tem_ext_heic f")
    case False
    with Cons show ?thesis by auto
  next
    case True
    with Cons.prems(1) obtain rel rest where
      r: "os_path_relpath w (os_path_join raiz f) a = Inr rel"
         "listar_raiz w a raiz names = Inr rest" "l = (os_path_join raiz f, rel) # rest"
      by (auto simp: Let_def split: sum.splits)
    with Cons.prems(2) consider "caminho_abs = os_path_join raiz f" "caminho_rel = rel"
      | "(caminho_abs, caminho_rel) \<in> set rest"
      by auto
    then show ?thesis
    proof cases
      case 1
      with True r(1) show ?thesis by auto
    next
      case 2
      from Cons.IH [OF r(2) this] show ?thesis by auto
    qed
  qed
qed

lemma listar_walk_member:
  "listar_walk w a ts = Inr l \<Longrightarrow> (caminho_abs, caminho_rel) \<in> set l \<Longrightarrow>
     \<exists>raiz ds names f. (raiz, ds, names) \<in> set ts \<and> f \<in> set names \<and> tem_ext_heic f
        \<and> caminho_abs = os_path_join raiz f
        \<and> os_path_relpath w caminho_abs a = Inr caminho_rel"
proof (induction ts arbitrary: l)
  case Nil
  then show ?case by simp
next
  case (Cons tr ts)
  obtain raiz ds names where tr: "tr = (raiz, ds, names)" by (cases tr)
  with Cons.prems(1) obtain here rest where
    h: "listar_raiz w a raiz names = Inr here" "listar_walk w a ts = Inr rest" "l = here @ rest"
    by (auto split: sum.splits)
  with Cons.prems(2) consider "(caminho_abs, caminho_rel) \<in> set here"
    | "(caminho_abs, caminho_rel) \<in> set rest"
    by auto
  then show ?case
  proof cases
    case 1
    from listar_raiz_member [OF h(1) this] tr show ?thesis by fastforce
  next
    case 2
    from Cons.IH [OF h(2) this] show ?thesis by fastforce
  qed
qed

subsection \<open>The relative path of a file below the root\<close>

lemma commonprefix_append: "commonprefix xs (xs @ ys) = xs"
  by (induction xs) auto

lemma relpath_below:
  assumes a: "os_path_isabs a" and p: "\<forall>x \<in> set path. valid_name x" and f: "valid_name f"
  shows "os_path_relpath w (os_path_join (foldl os_path_join a path) f) a
           = Inr (foldl os_path_join (hd (path @ [f])) (tl (path @ [f])))"
proof -
  let ?raiz = "foldl os_path_join a path"
  let ?abs = "os_path_join ?raiz f"
  have ra: "os_path_isabs ?raiz" using a by (rule foldl_join_isabs)
  then have aa: "os_path_isabs ?abs" by (rule join_isabs)
  then have ne: "?abs \<noteq> []" by (auto simp: isabs_Cons)
  have start: "components w a = norm_components a" using a by (rule components_abs)
  have "components w ?abs = norm_components ?abs" using aa by (rule components_abs)
  also have "\<dots> = norm_components ?raiz @ [f]" using ra f by (rule norm_components_join)
  also have "norm_components ?raiz = norm_components a @ path"
    using a p by (rule norm_components_foldl_join)
  finally have pl: "components w ?abs = norm_components a @ path @ [f]" by simp
  show ?thesis
    using ne
    by (simp add: os_path_relpath_def Let_def components_def [symmetric] start pl
        commonprefix_append)
qed

lemma foldl_join_last:
  assumes "valid_name f"
  shows "\<exists>p. foldl os_path_join (hd (path @ [f])) (tl (path @ [f])) = p @ f
           \<and> (p = [] \<or> last p = CHR ''/'')"
proof (cases path)
  case Nil
  then show ?thesis by simp
next
  case (Cons n ns)
  let ?x = "foldl os_path_join n ns"
  from assms have nf: "\<not> os_path_isabs f" by (rule valid_name_not_abs)
  have "foldl os_path_join (hd (path @ [f])) (tl (path @ [f])) = os_path_join ?x f"
    using Cons by simp
  also have "\<dots> = (if ?x = [] \<or> last ?x = CHR ''/'' then ?x else ?x @ ''/'') @ f"
    using nf by (simp add: os_path_join_def)
  finally show ?thesis by auto
qed

lemma tem_ext_heic_append:
  assumes "valid_name f" and "p = [] \<or> last p = CHR ''/''"
  shows "tem_ext_heic (p @ f) = tem_ext_heic f"
  using assms splitext_append [of f p]
  by (simp add: tem_ext_heic_def valid_name_def)

lemma listar_tem_ext:
  assumes wf: "wf_node (fs w)"
    and l: "fst (listar_ficheiros_heic w pasta_origem rec) = Inr ficheiros"
    and m: "(caminho_abs, caminho_rel) \<in> set ficheiros"
  shows "tem_ext_heic caminho_rel"
proof (cases rec)
  case False
  with l m show ?thesis
    by (auto simp: listar_ficheiros_heic_def Let_def split: prod.splits sum.splits)
next
  case True
  let ?a = "os_path_abspath w pasta_origem"
  have a: "os_path_isabs ?a" by (rule abspath_isabs)
  from True l have lw: "listar_walk w ?a (fst (os_walk w ?a)) = Inr ficheiros"
    by (simp add: listar_ficheiros_heic_def Let_def split: prod.splits)
  from listar_walk_member [OF lw m] obtain raiz ds names f where
    t: "(raiz, ds, names) \<in> set (fst (os_walk w ?a))" "f \<in> set names" "tem_ext_heic f"
       "caminho_abs = os_path_join raiz f" "os_path_relpath w caminho_abs ?a = Inr caminho_rel"
    by blast
  from t(1) obtain es where es: "stat w ?a = Some (Dir es)"
    and tw: "(raiz, ds, names) \<in> set (walk_node ?a (Dir es))"
    by (auto simp: os_walk_def Let_def split: option.splits node.splits)
  from es obtain cs where "lookup (fs w) cs = Some (Dir es)"
    by (auto simp: stat_def split: option.splits)
  with wf have "wf_node (Dir es)" by (rule wf_lookup)
  from walk_names(1) [OF this tw] obtain path where
    p: "raiz = foldl os_path_join ?a path" "\<forall>x \<in> set path. valid_name x"
       "\<forall>f \<in> set names. valid_name f"
    by blast
  from p(3) t(2) have vf: "valid_name f" by simp
  from relpath_below [OF a p(2) vf, of w] t(4,5) p(1)
  have "caminho_rel = foldl os_path_join (hd (path @ [f])) (tl (path @ [f]))" by simp
  with foldl_join_last [OF vf, of path] obtain q where
    "caminho_rel = q @ f" "q = [] \<or> last q = CHR ''/''"
    by auto
  with tem_ext_heic_append [OF vf this(2)] t(3) show ?thesis by simp
qed

section \<open>The claims\<close>

text \<open>
  C1 (amended). A format that, lowercased, is neither \<^verbatim>\<open>jpeg\<close> nor \<^verbatim>\<open>png\<close> is fatal
  before anything is touched: the run ends in an exception and leaves the world as it
  was, and the exception is the \<^verbatim>\<open>ValueError\<close> of the format check whenever the source is
  a directory. The quality is never checked: with a source that is a directory and a
  sound format, whatever the quality, the run goes on to create the destination
  directory, after the warning that a quality above 95 with JPEG output prints.
\<close>

theorem bad_format_is_fatal:
  "(str_lower (formato opts) \<notin> {''jpeg'', ''png''} \<longrightarrow>
      snd (converter_heic lib sch pasta_origem pasta_destino opts w) = w
      \<and> (\<exists>e. fst (converter_heic lib sch pasta_origem pasta_destino opts w) = Inl e)
      \<and> (os_path_isdir w pasta_origem \<longrightarrow>
           fst (converter_heic lib sch pasta_origem pasta_destino opts w)
             = Inl (ValueError ''formato deve ser jpeg ou png'')))
   \<and> (os_path_isdir w pasta_origem \<and> str_lower (formato opts) \<in> {''jpeg'', ''png''} \<longrightarrow>
        (\<exists>rest. trace (snd (converter_heic lib sch pasta_origem pasta_destino opts w)) =
           trace w
           @ (if qualidade opts > 95 \<and> str_lower (formato opts) = ''jpeg''
              then [Print Aviso_qualidade] else [])
           @ Makedirs (os_path_abspath w pasta_destino) # rest))"
proof (intro conjI impI)
  assume "os_path_isdir w pasta_origem \<and> str_lower (formato opts) \<in> {''jpeg'', ''png''}"
  then show "\<exists>rest. trace (snd (converter_heic lib sch pasta_origem pasta_destino opts w)) =
           trace w
           @ (if qualidade opts > 95 \<and> str_lower (formato opts) = ''jpeg''
              then [Print Aviso_qualidade] else [])
           @ Makedirs (os_path_abspath w pasta_destino) # rest"
    using converter_heic_trace by blast
qed (auto simp: converter_heic_def)

theorem bad_format_is_fatal_witness:
  "snd (converter_heic lib_ex [] ''/src'' ''/dst'' (default_options\<lparr>formato := ''gif''\<rparr>) w_ex) = w_ex
   \<and> fst (converter_heic lib_ex [] ''/src'' ''/dst'' (default_options\<lparr>formato := ''gif''\<rparr>) w_ex)
       = Inl (ValueError ''formato deve ser jpeg ou png'')
   \<and> (\<exists>rest. trace (snd (converter_heic lib_ex [] ''/src'' ''/dst''
                           (default_options\<lparr>qualidade := 1000\<rparr>) w_ex))
         = [Print Aviso_qualidade, Makedirs ''/dst''] @ rest)"
proof -
  have d: "os_path_isdir w_ex ''/src''" by code_simp
  have g: "str_lower (formato (default_options\<lparr>formato := ''gif''\<rparr>)) \<notin> {''jpeg'', ''png''}"
    by (simp add: str_lower_def lower_char_def)
  have j: "str_lower (formato (default_options\<lparr>qualidade := 1000\<rparr>)) = ''jpeg''"
    by (simp add: default_options_def str_lower_def lower_char_def)
  have q: "qualidade (default_options\<lparr>qualidade := 1000\<rparr>) > 95" by simp
  have a: "os_path_abspath w_ex ''/dst'' = ''/dst''" by code_simp
  have t: "trace w_ex = []" by (simp add: w_ex_def)
  from bad_format_is_fatal [of "default_options\<lparr>formato := ''gif''\<rparr>" lib_ex "[]" "''/src''" "''/dst''" w_ex]
    bad_format_is_fatal [of "default_options\<lparr>qualidade := 1000\<rparr>" lib_ex "[]" "''/src''" "''/dst''" w_ex]
    d g j q a t
  show ?thesis by simp
qed

text \<open>
  C1 as stated fails: with the quality 1000 the run over \<^verbatim>\<open>/src\<close> raises nothing. It
  prints the warning, creates the destination, enumerates, decodes and writes both
  files, and returns two conversions.
\<close>

theorem quality_unchecked_counterexample:
  "fst (converter_heic lib_ex [] ''/src'' ''/dst'' (default_options\<lparr>qualidade := 1000\<rparr>) w_ex)
     = Inr (2, 0)
   \<and> trace (snd (converter_heic lib_ex [] ''/src'' ''/dst''
                   (default_options\<lparr>qualidade := 1000\<rparr>) w_ex))
     = [Print Aviso_qualidade, Makedirs ''/dst'', Walk ''/src'',
        Print (A_converter 2 ''/src'' ''/dst''),
        Print (Opcoes ''jpeg'' 1000 0 True True True True False 4),
        Makedirs ''/dst'', Makedirs ''/dst/sub'',
        Open ''/src/a.heic'', Save ''/dst/a.jpg'',
        Open ''/src/sub/b.HEIF'', Save ''/dst/sub/b.jpg'',
        Print Conversao_concluida, Print (Convertidos 2), Print (Com_erro 0)]"
  by code_simp

text \<open>
  C2 fails on the code in its non-recursive branch: \<^verbatim>\<open>os.listdir\<close> names every entry, so
  the directory \<^verbatim>\<open>/src/album.heic\<close> is yielded as if it were a file, while the recursive
  branch, which reads the file names of \<^verbatim>\<open>os.walk\<close>, leaves it out. The batch then counts
  one error for it.
\<close>

theorem listdir_yields_directory:
  "fst (listar_ficheiros_heic w_ex ''/src'' False)
     = Inr [(''/src/a.heic'', ''a.heic''), (''/src/album.heic'', ''album.heic'')]
   \<and> stat w_ex ''/src/album.heic'' = Some (Dir [])
   \<and> fst (listar_ficheiros_heic w_ex ''/src'' True)
     = Inr [(''/src/a.heic'', ''a.heic''), (''/src/sub/b.HEIF'', ''sub/b.HEIF'')]
   \<and> fst (converter_heic lib_ex [] ''/src'' ''/dst'' (default_options\<lparr>recursivo := False\<rparr>) w_ex)
     = Inr (1, 1)"
  by code_simp

text \<open>
  C3. When the source root does not exist or is not a directory, the run ends with
  \<^verbatim>\<open>FileNotFoundError\<close> and the world, its trace included, is unchanged: nothing has been
  created, enumerated or converted.
\<close>

theorem source_missing_raises:
  assumes "\<not> os_path_exists w pasta_origem \<or> \<not> os_path_isdir w pasta_origem"
  shows "converter_heic lib sch pasta_origem pasta_destino opts w
           = (Inl (FileNotFoundError pasta_origem), w)"
proof -
  have "\<not> os_path_isdir w pasta_origem"
    using assms by (auto simp: os_path_isdir_def os_path_exists_def is_dir_def)
  then show ?thesis by (simp add: converter_heic_def)
qed

theorem source_missing_raises_witness:
  "converter_heic lib_ex [] ''/nada'' ''/dst'' default_options w_ex
     = (Inl (FileNotFoundError ''/nada''), w_ex)
   \<and> converter_heic lib_ex [] ''/src/n.txt'' ''/dst'' default_options w_ex
     = (Inl (FileNotFoundError ''/src/n.txt''), w_ex)"
proof -
  have a: "\<not> os_path_exists w_ex ''/nada''" by code_simp
  have b: "\<not> os_path_isdir w_ex ''/src/n.txt''" by code_simp
  show ?thesis
    using source_missing_raises [of w_ex "''/nada''" lib_ex "[]" "''/dst''" default_options] a
      source_missing_raises [of w_ex "''/src/n.txt''" lib_ex "[]" "''/dst''" default_options] b
    by simp
qed

text \<open>
  C4. When \<open>overwrite\<close> is false and the output path that \<^verbatim>\<open>destino_para\<close> computed for a
  file exists, the iteration for that file submits nothing: the loop, and with it the
  whole block and its two tallies, continue exactly as they would for the remaining
  files, from a pool with as many futures as before.
\<close>

theorem skip_existing:
  assumes "\<not> overwrite opts"
    and "destino_para dest (formato opts) caminho_rel (pworld (run_sched lib sch st)) = (Inr saida, w1)"
    and "os_path_exists w1 saida"
  shows "submit_loop lib opts dest ((caminho_abs, caminho_rel) # ficheiros) sch st
           = submit_loop lib opts dest ficheiros (tl sch) ((run_sched lib sch st)\<lparr>pworld := w1\<rparr>)
       \<and> pool_block lib opts dest ((caminho_abs, caminho_rel) # ficheiros) sch st
           = pool_block lib opts dest ficheiros (tl sch) ((run_sched lib sch st)\<lparr>pworld := w1\<rparr>)
       \<and> length (tarefas ((run_sched lib sch st)\<lparr>pworld := w1\<rparr>)) = length (tarefas st)"
  using assms by (simp add: pool_block_def Let_def)

theorem skip_existing_witness:
  "pool_block lib_ex default_options ''/out'' [(''/src/a.heic'', ''a.heic'')] [] (fresh_pool w_ex)
     = pool_block lib_ex default_options ''/out'' [] []
         ((run_sched lib_ex [] (fresh_pool w_ex))\<lparr>pworld := emit (Makedirs ''/out'') w_ex\<rparr>)
   \<and> fst (pool_block lib_ex default_options ''/out'' [(''/src/a.heic'', ''a.heic'')] []
            (fresh_pool w_ex)) = Inr (0, 0)"
proof -
  have o: "\<not> overwrite default_options" by (simp add: default_options_def)
  have d: "destino_para ''/out'' (formato default_options) ''a.heic''
             (pworld (run_sched lib_ex [] (fresh_pool w_ex)))
           = (Inr ''/out/a.jpg'', emit (Makedirs ''/out'') w_ex)"
    by code_simp
  have e: "os_path_exists (emit (Makedirs ''/out'') w_ex) ''/out/a.jpg''" by code_simp
  have r: "fst (pool_block lib_ex default_options ''/out'' [] []
         ((run_sched lib_ex [] (fresh_pool w_ex))\<lparr>pworld := emit (Makedirs ''/out'') w_ex\<rparr>))
        = Inr (0, 0)"
    by code_simp
  from skip_existing [OF o d e, of "''/src/a.heic''" "[]"] r show ?thesis by simp
qed

text \<open>
  C6. Whenever \<^verbatim>\<open>_salvar_imagem\<close> succeeds, the file at the output path is the one the
  encoder wrote; for \<^verbatim>\<open>png\<close> the encoder was given no \<^verbatim>\<open>exif\<close> parameter, whatever
  \<open>manter_metadata\<close> says, and for \<^verbatim>\<open>jpeg\<close> the image it was given has mode \<^verbatim>\<open>RGB\<close>.
\<close>

theorem format_isolation:
  assumes "salvar_imagem lib t w = (Inr u, w')"
  shows "\<exists>im ps. stat w' (caminho_saida t) = Some (File (Encoded im ps))
           \<and> (t_formato t = ''png'' \<longrightarrow> map_of ps ''exif'' = None)
           \<and> (t_formato t = ''jpeg'' \<longrightarrow> mode im = ''RGB'')"
proof -
  from assms obtain im0 w1 im where
    o: "image_open lib w (caminho_entrada t) = (Inr im0, w1)" and
    tr: "exif_transpose lib im0 = Inr im"
    by (auto simp: salvar_imagem_def Let_def split: prod.splits sum.splits)
  let ?exif = "if t_manter_metadata t then map_of (info im) ''exif'' else None"
  let ?icc = "if t_manter_metadata t then map_of (info im) ''icc_profile'' else None"
  show ?thesis
  proof (cases "t_formato t = ''jpeg''")
    case True
    with assms o tr have
      "image_save lib (convert lib im ''RGB'') (caminho_saida t) (jpeg_params t ?exif ?icc) w1 = (Inr u, w')"
      by (simp add: salvar_imagem_def Let_def)
    from image_save_stat [OF this] True show ?thesis
      by (auto simp: convert_def)
  next
    case False
    with assms o tr have png: "t_formato t = ''png''"
      by (auto simp: salvar_imagem_def Let_def split: if_splits)
    with assms o tr have
      "image_save lib im (caminho_saida t) (png_params ?icc) w1 = (Inr u, w')"
      by (simp add: salvar_imagem_def Let_def)
    from image_save_stat [OF this] png show ?thesis
      by (auto simp: png_params_def map_of_with_param)
  qed
qed

theorem format_isolation_witness:
  "(\<exists>im ps. stat (snd (salvar_imagem lib_ex t_png w_ex)) ''/vazio/a.png''
               = Some (File (Encoded im ps)) \<and> map_of ps ''exif'' = None)
   \<and> (\<exists>im ps. stat (snd (salvar_imagem lib_ex
                  (t_png\<lparr>caminho_saida := ''/vazio/a.jpg'', t_formato := ''jpeg''\<rparr>) w_ex))
                ''/vazio/a.jpg''
               = Some (File (Encoded im ps)) \<and> mode im = ''RGB'')"
proof -
  have p: "fst (salvar_imagem lib_ex t_png w_ex) = Inr ()" by code_simp
  have j: "fst (salvar_imagem lib_ex (t_png\<lparr>caminho_saida := ''/vazio/a.jpg'', t_formato := ''jpeg''\<rparr>) w_ex) = Inr ()"
    by code_simp
  from p have p': "salvar_imagem lib_ex t_png w_ex = (Inr (), snd (salvar_imagem lib_ex t_png w_ex))"
    by (metis prod.collapse)
  from j have j': "salvar_imagem lib_ex (t_png\<lparr>caminho_saida := ''/vazio/a.jpg'', t_formato := ''jpeg''\<rparr>) w_ex
      = (Inr (), snd (salvar_imagem lib_ex (t_png\<lparr>caminho_saida := ''/vazio/a.jpg'', t_formato := ''jpeg''\<rparr>) w_ex))"
    by (metis prod.collapse)
  from format_isolation [OF p'] format_isolation [OF j'] show ?thesis
    by (simp add: t_png_def)
qed

text \<open>
  C7. In a well-formed tree, every pair the enumerator yields has a relative path that
  ends in an extension which lowercases to \<^verbatim>\<open>.heic\<close> or \<^verbatim>\<open>.heif\<close>; the output path
  \<^verbatim>\<open>destino_para\<close> returns is the destination root joined with that relative path,
  directories and base name kept, with the extension replaced by \<^verbatim>\<open>.jpg\<close> for \<^verbatim>\<open>jpeg\<close>
  and by \<^verbatim>\<open>.png\<close> for \<^verbatim>\<open>png\<close>.
\<close>

theorem output_path:
  assumes "wf_node (fs w)"
    and "fst (listar_ficheiros_heic w pasta_origem rec) = Inr ficheiros"
    and "(caminho_abs, caminho_rel) \<in> set ficheiros"
    and "fst (destino_para dest fmt caminho_rel w') = Inr saida"
  shows "\<exists>stem ext. caminho_rel = stem @ ext \<and> str_lower ext \<in> set exts
           \<and> (fmt = ''jpeg'' \<longrightarrow> saida = os_path_join dest (stem @ ''.jpg''))
           \<and> (fmt = ''png'' \<longrightarrow> saida = os_path_join dest (stem @ ''.png''))"
proof -
  let ?stem = "fst (os_path_splitext caminho_rel)"
  let ?ext = "snd (os_path_splitext caminho_rel)"
  from assms(1-3) have "tem_ext_heic caminho_rel" by (rule listar_tem_ext)
  then have e: "str_lower ?ext \<in> set exts" by (simp add: tem_ext_heic_def)
  have c: "caminho_rel = ?stem @ ?ext" by (simp add: splitext_concat)
  from assms(4) have s: "saida = os_path_join dest (?stem @ ext_out fmt)"
    by (auto simp: destino_para_def Let_def split: prod.splits sum.splits)
  from c e s show ?thesis by (auto simp: ext_out_def)
qed

theorem output_path_witness:
  "\<exists>stem ext. ''sub/b.HEIF'' = stem @ ext \<and> str_lower ext \<in> set exts
     \<and> ''/dst/sub/b.jpg'' = os_path_join ''/dst'' (stem @ ''.jpg'')"
proof -
  have wf: "wf_node (fs w_ex)" by code_simp
  have l: "fst (listar_ficheiros_heic w_ex ''/src'' True)
     = Inr [(''/src/a.heic'', ''a.heic''), (''/src/sub/b.HEIF'', ''sub/b.HEIF'')]"
    by code_simp
  have m: "(''/src/sub/b.HEIF'', ''sub/b.HEIF'')
     \<in> set [(''/src/a.heic'', ''a.heic''), (''/src/sub/b.HEIF'', ''sub/b.HEIF'')]"
    by simp
  have d: "fst (destino_para ''/dst'' ''jpeg'' ''sub/b.HEIF'' w_ex) = Inr ''/dst/sub/b.jpg''"
    by code_simp
  from output_path [OF wf l m d] show ?thesis by simp
qed

text \<open>
  C8. When the block returns its tallies, every submitted future is finished; each has
  finished exactly once, with the outcome the tally read; the converted count is the
  number of successes, the error count the number of failures, and their sum the number
  of submitted tasks.
\<close>

theorem tallies_count_tasks:
  assumes "pool_block lib opts dest ficheiros sch (fresh_pool w) = (Inr (convertidos, erros), st)"
  shows "(\<forall>f \<in> set (tarefas st). is_finished f)
       \<and> convertidos = int (length (filter is_success (map snd (completed st))))
       \<and> erros = int (length (filter (\<lambda>r. \<not> is_success r) (map snd (completed st))))
       \<and> convertidos + erros = int (length (tarefas st))
       \<and> distinct (map fst (completed st))
       \<and> fst ` set (completed st) = {..<length (tarefas st)}
       \<and> (\<forall>(i, r) \<in> set (completed st). tarefas st ! i = Finished r)"
proof -
  obtain r1 sch1 st1 where s: "submit_loop lib opts dest ficheiros sch (fresh_pool w) = (r1, sch1, st1)"
    by (metis prod_cases3)
  let ?st2 = "drain lib sch1 st1"
  from assms s obtain w' where
    t: "tally (map snd (completed ?st2)) (0, 0, pworld ?st2) = (convertidos, erros, w')"
    and st: "st = ?st2\<lparr>pworld := w'\<rparr>"
    by (cases r1) (auto simp: pool_block_def Let_def split: prod.splits)
  have inv: "pool_inv ?st2"
    using pool_inv_fresh s by (blast intro: pool_inv_drain pool_inv_submit_loop)
  have fin: "\<forall>f \<in> set (tarefas ?st2). is_finished f" by (rule drain_all_finished)
  note complete = finished_pool_complete [OF inv fin]
  from tally_counts [OF t] have
    c: "convertidos = int (length (filter is_success (map snd (completed ?st2))))" and
    e: "erros = int (length (filter (\<lambda>r. \<not> is_success r) (map snd (completed ?st2))))"
    by simp_all
  have "length (filter is_success (map snd (completed ?st2)))
        + length (filter (\<lambda>r. \<not> is_success r) (map snd (completed ?st2)))
        = length (map snd (completed ?st2))"
    by (rule sum_length_filter_compl)
  with c e complete(2) have sum: "convertidos + erros = int (length (tarefas ?st2))" by simp
  from inv have "distinct (map fst (completed ?st2))"
    and "\<forall>(i, r) \<in> set (completed ?st2). tarefas ?st2 ! i = Finished r"
    by (auto simp: pool_inv_def)
  with fin c e sum complete(1) st show ?thesis by simp
qed

theorem tallies_count_tasks_witness:
  "(1::int) + 1 = int (length (tarefas (snd (pool_block lib_ex default_options ''/vazio''
       [(''/src/a.heic'', ''a.heic''), (''/src/album.heic'', ''album.heic'')] [] (fresh_pool w_ex)))))
   \<and> distinct (map fst (completed (snd (pool_block lib_ex default_options ''/vazio''
       [(''/src/a.heic'', ''a.heic''), (''/src/album.heic'', ''album.heic'')] [] (fresh_pool w_ex)))))"
proof -
  have p: "fst (pool_block lib_ex default_options ''/vazio''
       [(''/src/a.heic'', ''a.heic''), (''/src/album.heic'', ''album.heic'')] [] (fresh_pool w_ex))
     = Inr (1, 1)"
    by code_simp
  then have "pool_block lib_ex default_options ''/vazio''
       [(''/src/a.heic'', ''a.heic''), (''/src/album.heic'', ''album.heic'')] [] (fresh_pool w_ex)
     = (Inr (1, 1), snd (pool_block lib_ex default_options ''/vazio''
       [(''/src/a.heic'', ''a.heic''), (''/src/album.heic'', ''album.heic'')] [] (fresh_pool w_ex)))"
    by (metis prod.collapse)
  from tallies_count_tasks [OF this] show ?thesis by simp
qed





end
